theory Spec2Isabelle
  imports Main "HOL-Library.Word"
begin

unbundle bit_operations_syntax

section \<open>Common data: bytes, Python slices, exceptions\<close>

type_synonym byte = "8 word"

text \<open>The exceptions that the modelled Python code can raise.\<close>

datatype error =
    ZeroDivisionError
  | ValueError
  | StructError
  | IndexError
  | TypeError
  | UnicodeDecodeError
  | UnicodeEncodeError

text \<open>Python's \<open>xs[a:b]\<close> for non-negative \<open>a\<close> and \<open>b\<close>: it never raises and is cut at
  the end of the sequence.\<close>

definition py_slice :: "'a list \<Rightarrow> nat \<Rightarrow> nat \<Rightarrow> 'a list" where
  "py_slice xs a b = take (b - a) (drop a xs)"

text \<open>\<open>bytearray.append(n)\<close>: raises \<open>ValueError\<close> unless \<open>n\<close> is in \<open>range(256)\<close>.\<close>

definition append_byte :: "byte list \<Rightarrow> nat \<Rightarrow> error + byte list" where
  "append_byte output n = (if n < 256 then Inr (output @ [of_nat n]) else Inl ValueError)"

text \<open>Sequencing of computations that may raise: the first exception wins.\<close>

definition ebind :: "error + 'a \<Rightarrow> ('a \<Rightarrow> error + 'b) \<Rightarrow> error + 'b" where
  "ebind m f = (case m of Inl e \<Rightarrow> Inl e | Inr x \<Rightarrow> f x)"

text \<open>\<open>xs[i]\<close> for a non-negative index: \<open>IndexError\<close> when out of range.\<close>

definition get_byte :: "byte list \<Rightarrow> nat \<Rightarrow> error + byte" where
  "get_byte xs i = (if i < length xs then Inr (xs ! i) else Inl IndexError)"

text \<open>\<open>struct.pack('<I', n)\<close> and \<open>struct.pack('<H', n)\<close> for a non-negative \<open>n\<close>:
  little-endian bytes, \<open>struct.error\<close> when \<open>n\<close> does not fit.\<close>

definition pack_u32 :: "nat \<Rightarrow> error + byte list" where
  "pack_u32 n =
     (if n < 2 ^ 32
      then Inr [of_nat n, of_nat (n div 2 ^ 8), of_nat (n div 2 ^ 16), of_nat (n div 2 ^ 24)]
      else Inl StructError)"

definition pack_u16 :: "nat \<Rightarrow> error + byte list" where
  "pack_u16 n =
     (if n < 2 ^ 16 then Inr [of_nat n, of_nat (n div 2 ^ 8)] else Inl StructError)"

text \<open>\<open>struct.unpack('<I', bs)[0]\<close>, \<open>struct.unpack('<H', bs)[0]\<close>,
  \<open>struct.unpack('<i', bs)[0]\<close> and \<open>struct.unpack('<B', bs)[0]\<close>: \<open>struct.error\<close> unless
  the buffer has exactly the size of the format.\<close>

definition unpack_u32 :: "byte list \<Rightarrow> error + nat" where
  "unpack_u32 bs =
     (case bs of
        [b0, b1, b2, b3] \<Rightarrow>
          Inr (unat b0 + unat b1 * 2 ^ 8 + unat b2 * 2 ^ 16 + unat b3 * 2 ^ 24)
      | _ \<Rightarrow> Inl StructError)"

definition unpack_u16 :: "byte list \<Rightarrow> error + nat" where
  "unpack_u16 bs =
     (case bs of [b0, b1] \<Rightarrow> Inr (unat b0 + unat b1 * 2 ^ 8) | _ \<Rightarrow> Inl StructError)"

definition unpack_i32 :: "byte list \<Rightarrow> error + int" where
  "unpack_i32 bs =
     (case unpack_u32 bs of
        Inl e \<Rightarrow> Inl e
      | Inr v \<Rightarrow> Inr (if v < 2 ^ 31 then int v else int v - 2 ^ 32))"

definition unpack_u8 :: "byte list \<Rightarrow> error + nat" where
  "unpack_u8 bs = (case bs of [b0] \<Rightarrow> Inr (unat b0) | _ \<Rightarrow> Inl StructError)"

section \<open>Run-length codec (CM2Png.py, Png2Cm.py)\<close>

subsection \<open>\<open>rle_decode\<close>\<close>

text \<open>One iteration of the \<open>while i < len(input_data)\<close> loop of \<open>rle_decode\<close>; the
  state is the read position \<open>i\<close> and the \<open>output\<close> buffer. \<open>pixel_size\<close> is
  \<open>bpp // 8\<close> of a header byte, a natural number. The body runs only when
  \<open>i < len(input_data)\<close>, so \<open>input_data[i]\<close> is in range; the slices never raise.\<close>

definition rle_decode_body :: "byte list \<Rightarrow> nat \<Rightarrow> nat \<times> byte list \<Rightarrow> nat \<times> byte list" where
  "rle_decode_body input_data pixel_size = (\<lambda>(i, output).
     (let code = input_data ! i; i1 = i + 1 in
      if code < 0x80 then
        (i1 + unat code * pixel_size,
         output @ py_slice input_data i1 (i1 + unat code * pixel_size))
      else
        (let count = unat (code AND 0x7f);
             pixel = py_slice input_data i1 (i1 + pixel_size) in
         (i1 + pixel_size, output @ concat (replicate count pixel)))))"

text \<open>The loop itself. A run that does not return is the value \<open>None\<close>.\<close>

partial_function (option) rle_decode_loop ::
  "byte list \<Rightarrow> nat \<Rightarrow> nat \<times> byte list \<Rightarrow> byte list option" where
  "rle_decode_loop input_data pixel_size s =
     (if fst s < length input_data
      then rle_decode_loop input_data pixel_size (rle_decode_body input_data pixel_size s)
      else Some (snd s))"

declare rle_decode_loop.simps [code]

definition rle_decode :: "byte list \<Rightarrow> nat \<Rightarrow> byte list option" where
  "rle_decode input_data pixel_size = rle_decode_loop input_data pixel_size (0, [])"

subsection \<open>\<open>rle_encode\<close>\<close>

text \<open>The first inner loop: extend the run of pixels equal to the one at \<open>run_start\<close>.
  It returns the position \<open>i\<close> at which the loop stops.\<close>

function run_scan :: "byte list \<Rightarrow> nat \<Rightarrow> nat \<Rightarrow> nat \<Rightarrow> nat" where
  "run_scan input_data pixel_size run_start i =
     (if i + pixel_size \<le> length input_data \<and> i - run_start < 127 * pixel_size then
        (if py_slice input_data i (i + pixel_size)
              \<noteq> py_slice input_data run_start (run_start + pixel_size)
         then i
         else run_scan input_data pixel_size run_start (i + pixel_size))
      else i)"
  by pat_completeness auto
termination
  by (relation "measure (\<lambda>(input_data, pixel_size, run_start, i). length input_data - i)") auto

declare run_scan.simps [simp del]

text \<open>The second inner loop: extend the literal run until three equal pixels lie ahead.\<close>

function literal_scan :: "byte list \<Rightarrow> nat \<Rightarrow> nat \<Rightarrow> nat \<Rightarrow> nat" where
  "literal_scan input_data pixel_size literal_start i =
     (if i + pixel_size \<le> length input_data \<and> i - literal_start < 127 * pixel_size then
        (if i + pixel_size * 2 \<le> length input_data
            \<and> py_slice input_data i (i + pixel_size)
                = py_slice input_data (i + pixel_size) (i + pixel_size * 2)
            \<and> py_slice input_data (i + pixel_size) (i + pixel_size * 2)
                = py_slice input_data (i + pixel_size * 2) (i + pixel_size * 3)
         then i
         else literal_scan input_data pixel_size literal_start (i + pixel_size))
      else i)"
  by pat_completeness auto
termination
  by (relation "measure (\<lambda>(input_data, pixel_size, literal_start, i). length input_data - i)") auto

declare literal_scan.simps [simp del]

lemma run_scan_ge: "i \<le> run_scan input_data pixel_size run_start i"
proof (induction input_data pixel_size run_start i rule: run_scan.induct)
  case (1 input_data pixel_size run_start i)
  show ?case
    using "1.IH" by (subst run_scan.simps) auto
qed

lemma literal_scan_ge: "i \<le> literal_scan input_data pixel_size literal_start i"
proof (induction input_data pixel_size literal_start i rule: literal_scan.induct)
  case (1 input_data pixel_size literal_start i)
  show ?case
    using "1.IH" by (subst literal_scan.simps) auto
qed

text \<open>The outer loop of \<open>rle_encode\<close>. \<open>(i - run_start) // pixel_size\<close> raises
  \<open>ZeroDivisionError\<close> when \<open>pixel_size\<close> is 0.\<close>

function rle_encode_loop :: "byte list \<Rightarrow> nat \<Rightarrow> nat \<Rightarrow> byte list \<Rightarrow> error + byte list" where
  "rle_encode_loop input_data pixel_size i output =
     (if i < length input_data then
        (let run_start = i;
             i1 = run_scan input_data pixel_size run_start i in
         if pixel_size = 0 then Inl ZeroDivisionError
         else
           (let run_length = (i1 - run_start) div pixel_size in
            if run_length > 1 then
              (case append_byte output (0x80 OR run_length) of
                 Inl e \<Rightarrow> Inl e
               | Inr output1 \<Rightarrow>
                   rle_encode_loop input_data pixel_size i1
                     (output1 @ py_slice input_data run_start (run_start + pixel_size)))
            else
              (let literal_start = run_start;
                   i2 = literal_scan input_data pixel_size literal_start
                          (literal_start + pixel_size);
                   literal_length = (i2 - literal_start) div pixel_size in
               case append_byte output literal_length of
                 Inl e \<Rightarrow> Inl e
               | Inr output1 \<Rightarrow>
                   rle_encode_loop input_data pixel_size i2
                     (output1 @ py_slice input_data literal_start i2))))
      else Inr output)"
  by pat_completeness auto
termination
proof (relation "measure (\<lambda>(input_data, pixel_size, i, output). length input_data - i)")
  show "wf (measure (\<lambda>(input_data, pixel_size, i, output). length input_data - i))"
    by simp
next
  fix input_data :: "byte list" and pixel_size i :: nat and out :: "byte list"
    and x xa xb :: nat and x2 :: "byte list"
  assume "i < length input_data" "x = i" "xa = run_scan input_data pixel_size x i"
    "pixel_size \<noteq> 0" "xb = (xa - x) div pixel_size" "1 < xb"
  then have "i < xa"
    by (cases "xa \<le> i") auto
  with \<open>i < length input_data\<close>
  show "((input_data, pixel_size, xa, x2 @ py_slice input_data x (x + pixel_size)),
          input_data, pixel_size, i, out)
        \<in> measure (\<lambda>(input_data, pixel_size, i, output). length input_data - i)"
    by simp
next
  fix input_data :: "byte list" and pixel_size i :: nat and out :: "byte list"
    and x xa xb xc xd xe :: nat and x2 :: "byte list"
  assume "i < length input_data" "pixel_size \<noteq> 0" "xc = x" "x = i"
    "xd = literal_scan input_data pixel_size xc (xc + pixel_size)"
  then have "i < xd"
    using literal_scan_ge [of "i + pixel_size" input_data pixel_size i] by simp
  with \<open>i < length input_data\<close>
  show "((input_data, pixel_size, xd, x2 @ py_slice input_data xc xd),
          input_data, pixel_size, i, out)
        \<in> measure (\<lambda>(input_data, pixel_size, i, output). length input_data - i)"
    by simp
qed

declare rle_encode_loop.simps [simp del]

definition rle_encode :: "byte list \<Rightarrow> nat \<Rightarrow> error + byte list" where
  "rle_encode input_data pixel_size = rle_encode_loop input_data pixel_size 0 []"

subsection \<open>Segments of a run-length stream\<close>

text \<open>A segment is a literal run (count, payload bytes) or a repeat run (count, one pixel).
  \<open>seg_bytes\<close> is its serialisation (tag byte, then payload), \<open>seg_pixels\<close> the pixels it
  stands for, and \<open>seg_wf\<close> says that the count is in range and the payload complete.\<close>

datatype segment = Literal nat "byte list" | Repeat nat "byte list"

fun seg_bytes :: "segment \<Rightarrow> byte list" where
  "seg_bytes (Literal n p) = of_nat n # p"
| "seg_bytes (Repeat n p) = of_nat (128 + n) # p"

fun seg_pixels :: "segment \<Rightarrow> byte list" where
  "seg_pixels (Literal n p) = p"
| "seg_pixels (Repeat n p) = concat (replicate n p)"

fun seg_wf :: "nat \<Rightarrow> segment \<Rightarrow> bool" where
  "seg_wf ps (Literal n p) = (1 \<le> n \<and> n \<le> 127 \<and> length p = n * ps)"
| "seg_wf ps (Repeat n p) = (2 \<le> n \<and> n \<le> 127 \<and> length p = ps)"

text \<open>The segments of a byte stream, read with the tag rule of \<open>rle_decode\<close>: a tag below
  \<open>0x80\<close> is a literal count, any other tag a repeat count in its low seven bits.\<close>

function rle_segments :: "byte list \<Rightarrow> nat \<Rightarrow> nat \<Rightarrow> segment list" where
  "rle_segments input_data pixel_size i =
     (if i < length input_data then
        (let code = input_data ! i; i1 = i + 1 in
         if code < 0x80 then
           Literal (unat code) (py_slice input_data i1 (i1 + unat code * pixel_size))
             # rle_segments input_data pixel_size (i1 + unat code * pixel_size)
         else
           Repeat (unat (code AND 0x7f)) (py_slice input_data i1 (i1 + pixel_size))
             # rle_segments input_data pixel_size (i1 + pixel_size))
      else [])"
  by pat_completeness auto
termination
  by (relation "measure (\<lambda>(input_data, pixel_size, i). length input_data - i)") auto

declare rle_segments.simps [simp del]

section \<open>Raster header (Png2Cm.py, CM2Png.py)\<close>

text \<open>The metadata dictionary. \<open>read_cm_metadata\<close> returns the seven keys of
  \<open>cm_metadata\<close>; \<open>write_cm_metadata\<close> also reads the key \<open>size\<close>. The numeric values are
  sizes and counts, natural numbers.\<close>

record cm_metadata =
  width :: nat
  height :: nat
  colors :: nat
  bpp :: nat
  is_compressed :: bool
  data_offset :: nat
  data_length :: nat

record cm_metadata_sized = cm_metadata +
  md_size :: nat

text \<open>\<open>header[a:b] = xs\<close> on a bytearray, for \<open>a \<le> b \<le> len(header)\<close>.\<close>

definition set_slice :: "byte list \<Rightarrow> nat \<Rightarrow> nat \<Rightarrow> byte list \<Rightarrow> byte list" where
  "set_slice header a b xs = take a header @ xs @ drop b header"

text \<open>\<open>header[i] = n\<close> on a bytearray: \<open>ValueError\<close> unless \<open>n\<close> is in \<open>range(256)\<close>,
  \<open>IndexError\<close> when \<open>i\<close> is out of range.\<close>

definition set_byte :: "byte list \<Rightarrow> nat \<Rightarrow> nat \<Rightarrow> error + byte list" where
  "set_byte header i n =
     (if \<not> n < 256 then Inl ValueError
      else if \<not> i < length header then Inl IndexError
      else Inr (header[i := of_nat n]))"

text \<open>\<open>write_cm_metadata\<close>: the result is the byte string given to \<open>file.write\<close>.\<close>

definition write_cm_metadata :: "'a cm_metadata_sized_scheme \<Rightarrow> error + byte list" where
  "write_cm_metadata metadata =
     (let header = replicate 0x20 (0 :: byte);
          header = set_slice header 0 2 [0x43, 0x4D] in
      ebind (pack_u32 (md_size metadata)) (\<lambda>p.
      let header = set_slice header 2 6 p in
      ebind (pack_u16 (width metadata)) (\<lambda>p.
      let header = set_slice header 6 8 p in
      ebind (pack_u16 (height metadata)) (\<lambda>p.
      let header = set_slice header 8 10 p in
      ebind (pack_u16 (colors metadata)) (\<lambda>p.
      let header = set_slice header 0x0A 0x0C p in
      ebind (set_byte header 0x0C (bpp metadata)) (\<lambda>header.
      ebind (set_byte header 0x0D (if is_compressed metadata then 1 else 0)) (\<lambda>header.
      ebind (set_byte header 0x0E 1) (\<lambda>header.
      ebind (pack_u32 (data_offset metadata)) (\<lambda>p.
      let header = set_slice header 0x10 0x14 p in
      ebind (pack_u32 (data_length metadata)) (\<lambda>p.
      let header = set_slice header 0x14 0x18 p in
      Inr header))))))))))"

text \<open>\<open>read_cm_metadata\<close> on a file opened at position 0 whose bytes are \<open>content\<close>;
  \<open>os.path.getsize(file.name)\<close> is \<open>length content\<close>. \<open>Inr None\<close> is the \<open>return None\<close>.\<close>

definition read_cm_metadata :: "byte list \<Rightarrow> error + cm_metadata option" where
  "read_cm_metadata content =
     (let header = take 0x20 content in
      if py_slice header 0 2 \<noteq> [0x43, 0x4D] then Inr None
      else
        ebind (get_byte header 0x0E) (\<lambda>version.
        if version \<noteq> 1 then Inr None
        else
          ebind (unpack_u32 (py_slice header 2 6)) (\<lambda>size.
          if size \<noteq> length content then Inr None
          else
            ebind (unpack_u16 (py_slice header 6 8)) (\<lambda>w.
            ebind (unpack_u16 (py_slice header 8 10)) (\<lambda>h.
            ebind (unpack_u16 (py_slice header 0x0A 0x0C)) (\<lambda>c.
            ebind (get_byte header 0x0C) (\<lambda>b.
            ebind (get_byte header 0x0D) (\<lambda>f.
            ebind (unpack_u32 (py_slice header 0x10 0x14)) (\<lambda>off.
            ebind (unpack_u32 (py_slice header 0x14 0x18)) (\<lambda>len.
            Inr (Some \<lparr>width = w, height = h, colors = c, bpp = unat b,
                       is_compressed = (f \<noteq> 0), data_offset = off,
                       data_length = len\<rparr>)))))))))))"

section \<open>Archive container (ARC_MAI_PACK_UNPAK.py)\<close>

subsection \<open>Strings, paths and codecs of the Python library\<close>

text \<open>A Python \<open>str\<close> is modelled as a \<open>string\<close> whose characters are the code points
  U+0000 to U+00FF. \<open>os.path\<close> is \<open>posixpath\<close>.\<close>

definition byte_of_char :: "char \<Rightarrow> byte" where
  "byte_of_char c = of_nat (of_char c)"

definition char_of_byte :: "byte \<Rightarrow> char" where
  "char_of_byte b = char_of (unat b)"

definition is_ascii :: "char \<Rightarrow> bool" where
  "is_ascii c = (of_char c < (0x80 :: nat))"

text \<open>\<open>bs.decode('ascii')\<close>: \<open>UnicodeDecodeError\<close> on a byte above \<open>0x7F\<close>.\<close>

definition decode_ascii :: "byte list \<Rightarrow> error + string" where
  "decode_ascii bs =
     (if \<forall>b \<in> set bs. b < 0x80 then Inr (map char_of_byte bs) else Inl UnicodeDecodeError)"

text \<open>\<open>s.encode('cp932')\<close>. The codec maps an ASCII character to the byte of the same
  value. For the other characters it uses the table of the Python library, which is not
  part of the repository: the parameter \<open>cp932\<close> gives the bytes of such a character, or
  \<open>None\<close> where the codec raises \<open>UnicodeEncodeError\<close>.\<close>

fun encode_cp932 :: "(char \<Rightarrow> byte list option) \<Rightarrow> string \<Rightarrow> error + byte list" where
  "encode_cp932 cp932 [] = Inr []"
| "encode_cp932 cp932 (c # cs) =
     (case (if is_ascii c then Some [byte_of_char c] else cp932 c) of
        None \<Rightarrow> Inl UnicodeEncodeError
      | Some bs \<Rightarrow>
          (case encode_cp932 cp932 cs of Inl e \<Rightarrow> Inl e | Inr rest \<Rightarrow> Inr (bs @ rest)))"

text \<open>\<open>s.rstrip('\x00')\<close> and \<open>s.ljust(n, '\x00')\<close>.\<close>

definition rstrip_nul :: "string \<Rightarrow> string" where
  "rstrip_nul s = rev (dropWhile (\<lambda>c. c = CHR 0x00) (rev s))"

definition ljust_nul :: "string \<Rightarrow> nat \<Rightarrow> string" where
  "ljust_nul s n = s @ replicate (n - length s) (CHR 0x00)"

text \<open>\<open>s.lower()\<close> on the code points below U+0100.\<close>

definition lower_char :: "char \<Rightarrow> char" where
  "lower_char c =
     (let n = (of_char c :: nat) in
      if (0x41 \<le> n \<and> n \<le> 0x5A) \<or> (0xC0 \<le> n \<and> n \<le> 0xDE \<and> n \<noteq> 0xD7)
      then char_of (n + 0x20) else c)"

definition lower :: "string \<Rightarrow> string" where
  "lower s = map lower_char s"

text \<open>\<open>os.path.basename(p)\<close>: what follows the last \<open>/\<close>.\<close>

definition basename :: "string \<Rightarrow> string" where
  "basename p = rev (takeWhile (\<lambda>c. c \<noteq> CHR ''/'') (rev p))"

text \<open>\<open>os.path.join(a, b)\<close>: an absolute \<open>b\<close> discards \<open>a\<close>.\<close>

definition os_path_join :: "string \<Rightarrow> string \<Rightarrow> string" where
  "os_path_join a b =
     (if take 1 b = ''/'' then b
      else if a = [] \<or> last a = CHR ''/'' then a @ b
      else a @ ''/'' @ b)"

text \<open>\<open>os.path.splitext(p)[0]\<close>: the path without the extension of its last component;
  leading dots of the component do not start an extension.\<close>

definition splitext_root :: "string \<Rightarrow> string" where
  "splitext_root p =
     (let base = basename p;
          dir = take (length p - length base) p;
          stem = rev (drop 1 (dropWhile (\<lambda>c. c \<noteq> CHR ''.'') (rev base)))
      in if CHR ''.'' \<in> set base \<and> (\<exists>c \<in> set stem. c \<noteq> CHR ''.'') then dir @ stem else p)"

subsection \<open>Reading fields of the file\<close>

text \<open>The argument \<open>file\<close> of \<open>try_open\<close> is a path; the file system is modelled by giving
  the path together with the bytes stored there.\<close>

record disk_file =
  path :: string
  content :: "byte list"

text \<open>\<open>f.seek(offset); f.read(n)\<close>: short at the end of the file.\<close>

definition read_bytes :: "byte list \<Rightarrow> nat \<Rightarrow> nat \<Rightarrow> byte list" where
  "read_bytes c offset n = py_slice c offset (offset + n)"

definition read_uint32 :: "byte list \<Rightarrow> nat \<Rightarrow> error + nat" where
  "read_uint32 c offset = unpack_u32 (read_bytes c offset 4)"

definition read_int32 :: "byte list \<Rightarrow> nat \<Rightarrow> error + int" where
  "read_int32 c offset = unpack_i32 (read_bytes c offset 4)"

definition read_uint16 :: "byte list \<Rightarrow> nat \<Rightarrow> error + nat" where
  "read_uint16 c offset = unpack_u16 (read_bytes c offset 2)"

definition read_byte :: "byte list \<Rightarrow> nat \<Rightarrow> error + nat" where
  "read_byte c offset = unpack_u8 (read_bytes c offset 1)"

definition read_string :: "byte list \<Rightarrow> nat \<Rightarrow> nat \<Rightarrow> error + string" where
  "read_string c offset len =
     ebind (decode_ascii (read_bytes c offset len)) (\<lambda>s. Inr (rstrip_nul s))"

definition detect_file_type :: "byte list \<Rightarrow> nat \<Rightarrow> error + string" where
  "detect_file_type c offset =
     ebind (read_uint32 c offset) (\<lambda>signature.
       let signature_type = signature AND 0xFFFF in
       if signature_type = 0x4D43 then Inr ''.cm''
       else if signature_type = 0x4D41 then Inr ''.am''
       else if signature_type = 0x4D42 then Inr ''.bmp''
       else if signature_type = 0x10B4 then Inr ''.msk''
       else Inr ''.bin'')"

subsection \<open>\<open>try_open\<close>\<close>

record folder =
  folder_name :: string
  folder_index :: int

record entry =
  entry_name :: string
  entry_offset :: nat
  entry_size :: nat
  entry_type :: string

record archive =
  arc_file :: string
  arc_entries :: "entry list"

definition check_placement :: "entry \<Rightarrow> nat \<Rightarrow> bool" where
  "check_placement e max_offset = (entry_offset e + entry_size e \<le> max_offset)"

lemma ebind_cong [fundef_cong]:
  "m = m' \<Longrightarrow> (\<And>x. m' = Inr x \<Longrightarrow> f x = f' x) \<Longrightarrow> ebind m f = ebind m' f'"
  by (cases m') (simp_all add: ebind_def)

text \<open>The loop that reads the directory table, \<open>n\<close> records of 8 bytes from
  \<open>dir_offset\<close>.\<close>

fun read_folders :: "byte list \<Rightarrow> nat \<Rightarrow> nat \<Rightarrow> error + folder list" where
  "read_folders c dir_offset 0 = Inr []"
| "read_folders c dir_offset (Suc n) =
     ebind (read_string c dir_offset 4) (\<lambda>name.
     ebind (read_int32 c (dir_offset + 4)) (\<lambda>index.
     ebind (read_folders c (dir_offset + 8) n) (\<lambda>rest.
     Inr (\<lparr>folder_name = name, folder_index = index\<rparr> # rest))))"

text \<open>The inner \<open>while i >= next_folder and folder < len(folders)\<close> loop; its state is
  \<open>(next_folder, folder, current_folder)\<close>. \<open>len(folders)\<close> raises \<open>TypeError\<close> when
  \<open>folders\<close> is \<open>None\<close>.\<close>

function advance_folder ::
  "folder list option \<Rightarrow> int \<Rightarrow> int \<Rightarrow> int \<times> nat \<times> string \<Rightarrow> error + int \<times> nat \<times> string"
  where
  "advance_folder folders count i (next_folder, folder, current_folder) =
     (if i \<ge> next_folder then
        (case folders of
           None \<Rightarrow> Inl TypeError
         | Some fs \<Rightarrow>
             if folder < length fs then
               advance_folder folders count i
                 (if folder + 1 = length fs then count else folder_index (fs ! (folder + 1)),
                  folder + 1,
                  folder_name (fs ! folder))
             else Inr (next_folder, folder, current_folder))
      else Inr (next_folder, folder, current_folder))"
  by pat_completeness auto
termination
  by (relation "measure (\<lambda>(folders, count, i, next_folder, folder, current_folder).
        length (the folders) - folder)") auto

declare advance_folder.simps [simp del]

text \<open>The type of an entry: the expression
  \<open>self.detect_file_type(file, offset) if not is_mask_arc else 'MSK/MAI'\<close>.\<close>

definition entry_type_for :: "bool \<Rightarrow> byte list \<Rightarrow> nat \<Rightarrow> error + string" where
  "entry_type_for is_mask_arc c offset =
     (if \<not> is_mask_arc then detect_file_type c offset else Inr ''MSK/MAI'')"

text \<open>The \<open>for i in range(count)\<close> loop. Its state is the folder cursor, \<open>index_offset\<close>
  and the list \<open>dir\<close> built so far; \<open>Inr None\<close> is a \<open>return None\<close> from inside the loop.\<close>

function try_open_loop ::
  "byte list \<Rightarrow> int \<Rightarrow> folder list option \<Rightarrow> bool \<Rightarrow> nat
     \<Rightarrow> (int \<times> nat \<times> string) \<times> nat \<times> entry list \<Rightarrow> error + entry list option" where
  "try_open_loop c count folders is_mask_arc i (cursor, index_offset, dir) =
     (if int i < count then
        ebind (advance_folder folders count (int i) cursor) (\<lambda>cursor.
        ebind (read_string c index_offset 0x10) (\<lambda>name.
        if length name = 0 then Inr None
        else
          ebind (read_uint32 c (index_offset + 0x10)) (\<lambda>offset.
          ebind (read_uint32 c (index_offset + 0x14)) (\<lambda>size.
          ebind (entry_type_for is_mask_arc c offset) (\<lambda>type.
          let e = \<lparr>entry_name = os_path_join (snd (snd cursor)) name,
                   entry_offset = offset, entry_size = size, entry_type = type\<rparr> in
          if \<not> check_placement e (length c) then Inr None
          else
            try_open_loop c count folders is_mask_arc (i + 1)
              (cursor, index_offset + 0x18, dir @ [e]))))))
      else Inr (Some dir))"
  by pat_completeness auto
termination
  by (relation "measure (\<lambda>(c, count, folders, is_mask_arc, i, s). nat count - i)") auto

declare try_open_loop.simps [simp del]

definition is_mask_arc :: "string \<Rightarrow> bool" where
  "is_mask_arc file = (lower (basename file) = ''mask.arc'')"

definition try_open :: "disk_file \<Rightarrow> error + archive option" where
  "try_open file =
     (let c = content file in
      ebind (read_uint32 c 4) (\<lambda>file_size.
      if file_size \<noteq> length c then Inr None
      else
        ebind (read_int32 c 8) (\<lambda>count.
        if count \<le> 0 \<or> count > 0xfffff then Inr None
        else
          ebind (read_byte c 0x0d) (\<lambda>dir_level.
          ebind (read_uint16 c 0x0e) (\<lambda>dir_entries.
          let index_offset = 0x10;
              index_size = count * 0x18 + int dir_entries * 8 in
          if index_size > int (length c) - int index_offset then Inr None
          else
            ebind (if dir_entries \<noteq> 0 \<and> dir_level = 2
                   then ebind (read_folders c (index_offset + nat count * 0x18) dir_entries)
                          (\<lambda>fs. Inr (Some fs))
                   else Inr None) (\<lambda>folders.
            ebind (case folders of
                     None \<Rightarrow> Inr count
                   | Some fs \<Rightarrow>
                       (case fs of [] \<Rightarrow> Inl IndexError | f # _ \<Rightarrow> Inr (folder_index f)))
              (\<lambda>next_folder.
            ebind (try_open_loop c count folders (is_mask_arc (path file)) 0
                     ((next_folder, 0, ''''), index_offset, []))
              (\<lambda>r. Inr (map_option (\<lambda>dir. \<lparr>arc_file = path file, arc_entries = dir\<rparr>) r)))))))))"

subsection \<open>\<open>pack_files\<close>\<close>

record pack_entry =
  pk_name :: string
  pk_size :: nat
  pk_data :: "byte list"

record placed_entry = pack_entry +
  pk_offset :: nat

text \<open>The collection loop. The files found by \<open>os.walk\<close> are given in its order, each
  with its path relative to \<open>directory\<close> and its bytes.\<close>

definition collect_entries :: "(string \<times> byte list) list \<Rightarrow> pack_entry list" where
  "collect_entries files =
     map (\<lambda>(relpath, data).
            \<lparr>pk_name = splitext_root (map (\<lambda>c. if c = CHR 0x5C then CHR ''/'' else c) relpath),
             pk_size = length data, pk_data = data\<rparr>) files"

text \<open>The loop that assigns the offsets, from the current \<open>data_offset\<close> (here
  \<open>data_off\<close>); it returns the entries and the final \<open>data_offset\<close>.\<close>

fun assign_offsets :: "nat \<Rightarrow> pack_entry list \<Rightarrow> placed_entry list \<times> nat" where
  "assign_offsets data_off [] = ([], data_off)"
| "assign_offsets data_off (e # es) =
     (let (ps, final) = assign_offsets (data_off + pk_size e) es in
      (pack_entry.extend e \<lparr>pk_offset = data_off\<rparr> # ps, final))"

text \<open>The loop that writes the index: per entry the padded, encoded name, the offset and
  the size.\<close>

fun write_index :: "(char \<Rightarrow> byte list option) \<Rightarrow> placed_entry list \<Rightarrow> error + byte list" where
  "write_index cp932 [] = Inr []"
| "write_index cp932 (e # es) =
     ebind (encode_cp932 cp932 (ljust_nul (pk_name e) 0x10)) (\<lambda>name.
     ebind (pack_u32 (pk_offset e)) (\<lambda>off.
     ebind (pack_u32 (pk_size e)) (\<lambda>sz.
     ebind (write_index cp932 es) (\<lambda>rest.
     Inr (name @ off @ sz @ rest)))))"

text \<open>\<open>pack_files\<close>: the result is the byte string written to \<open>archive_name\<close>.\<close>

definition pack_files ::
  "(char \<Rightarrow> byte list option) \<Rightarrow> (string \<times> byte list) list \<Rightarrow> error + byte list" where
  "pack_files cp932 files =
     (let entries = collect_entries files;
          current_offset = 0x10;
          index_size = length entries * 0x18;
          data_offset = current_offset + index_size;
          (entries, data_offset) = assign_offsets data_offset entries;
          total_size = data_offset in
      ebind (pack_u32 0x0a49414d) (\<lambda>signature.
      ebind (pack_u32 total_size) (\<lambda>size.
      ebind (pack_u32 (length entries)) (\<lambda>count.
      ebind (write_index cp932 entries) (\<lambda>index.
      Inr (signature @ size @ count @ [0x00, 0x01, 0x00, 0x00]
           @ index @ concat (map pk_data entries)))))))"

subsection \<open>Notions used to state and prove the archive properties\<close>

text \<open>\<open>le32 n\<close> is the little-endian image of \<open>n\<close>. A name is \<open>name_ok\<close> when it is
  non-empty, at most 16 characters long, ASCII, and does not end in a NUL character.
  \<open>index_record\<close> is the 0x18-byte index record of a placed entry with such a name, and
  \<open>same_fields\<close> relates a resolved entry to the placed entry it was read from.\<close>

definition le32 :: "nat \<Rightarrow> byte list" where
  "le32 n = [of_nat n, of_nat (n div 256), of_nat (n div 65536), of_nat (n div 16777216)]"

definition name_ok :: "string \<Rightarrow> bool" where
  "name_ok n = (n \<noteq> [] \<and> length n \<le> 16 \<and> (\<forall>c \<in> set n. is_ascii c) \<and> last n \<noteq> CHR 0x00)"

definition index_record :: "placed_entry \<Rightarrow> byte list" where
  "index_record p =
     map byte_of_char (ljust_nul (pk_name p) 0x10) @ le32 (pk_offset p) @ le32 (pk_size p)"

definition same_fields :: "entry \<Rightarrow> placed_entry \<Rightarrow> bool" where
  "same_fields e p =
     (entry_name e = pk_name p \<and> entry_offset e = pk_offset p \<and> entry_size e = pk_size p)"

text \<open>The directory table of the specification's example, and an archive of 156 bytes
  that carries it: five flat entries named \<open>/x\<close>, \<open>b\<close>, \<open>c\<close>, \<open>d\<close>, \<open>e\<close>, each placed at
  offset 152 with size 4, directory level 2, the table \<open>AA\<close> from 0 and \<open>BB\<close> from 3, and
  four payload bytes.\<close>

definition example_folders :: "folder list" where
  "example_folders = [\<lparr>folder_name = ''AA'', folder_index = 0\<rparr>,
                      \<lparr>folder_name = ''BB'', folder_index = 3\<rparr>]"

definition dir_example :: "byte list" where
  "dir_example =
    [77, 65, 73, 10, 156, 0, 0, 0, 5, 0, 0, 0, 0, 2, 2, 0, 47, 120, 0, 0, 0, 0, 0, 0, 0, 0,
      0, 0, 0, 0, 0, 0, 152, 0, 0, 0, 4, 0, 0, 0, 98, 0, 0, 0, 0, 0, 0, 0, 0, 0, 0, 0, 0,
      0, 0, 0, 152, 0, 0, 0, 4, 0, 0, 0, 99, 0, 0, 0, 0, 0, 0, 0, 0, 0, 0, 0, 0, 0, 0, 0,
      152, 0, 0, 0, 4, 0, 0, 0, 100, 0, 0, 0, 0, 0, 0, 0, 0, 0, 0, 0, 0, 0, 0, 0, 152, 0,
      0, 0, 4, 0, 0, 0, 101, 0, 0, 0, 0, 0, 0, 0, 0, 0, 0, 0, 0, 0, 0, 0, 152, 0, 0, 0, 4,
      0, 0, 0, 65, 65, 0, 0, 0, 0, 0, 0, 66, 66, 0, 0, 3, 0, 0, 0, 66, 77, 1, 2]"

section \<open>Properties of the run-length codec\<close>

lemma py_slice_append:
  "a \<le> b \<Longrightarrow> b \<le> c \<Longrightarrow> py_slice xs a c = py_slice xs a b @ py_slice xs b c"
  using take_add [of "b - a" "c - b" "drop a xs"] by (simp add: py_slice_def)

lemma length_py_slice: "b \<le> length xs \<Longrightarrow> length (py_slice xs a b) = b - a"
  by (simp add: py_slice_def)

lemma py_slice_to_end: "a \<le> b \<Longrightarrow> drop a xs = py_slice xs a b @ drop b xs"
  using append_take_drop_id [of "b - a" "drop a xs"] by (simp add: py_slice_def)

lemma run_scan_inv:
  assumes "0 < ps"
  shows "i = rs + k * ps \<Longrightarrow> k \<le> 127 \<Longrightarrow> i \<le> length d
    \<Longrightarrow> py_slice d rs i = concat (replicate k (py_slice d rs (rs + ps)))
    \<Longrightarrow> \<exists>k'. run_scan d ps rs i = rs + k' * ps \<and> k \<le> k' \<and> k' \<le> 127
          \<and> rs + k' * ps \<le> length d
          \<and> py_slice d rs (rs + k' * ps) = concat (replicate k' (py_slice d rs (rs + ps)))"
proof (induction d ps rs i arbitrary: k rule: run_scan.induct)
  case (1 d ps rs i)
  show ?case
  proof (cases "i + ps \<le> length d \<and> i - rs < 127 * ps
                \<and> py_slice d i (i + ps) = py_slice d rs (rs + ps)")
    case True
    have unf: "run_scan d ps rs i = run_scan d ps rs (i + ps)"
      by (subst run_scan.simps) (use True in simp)
    from True "1.prems"(1) have "k * ps < 127 * ps" by simp
    then have k: "Suc k \<le> 127" by simp
    have i': "i + ps = rs + Suc k * ps" using "1.prems"(1) by simp
    have "py_slice d rs (i + ps) = py_slice d rs i @ py_slice d i (i + ps)"
      using "1.prems"(1) by (intro py_slice_append) simp_all
    also have "\<dots> = concat (replicate (Suc k) (py_slice d rs (rs + ps)))"
      using True "1.prems"(4) by (simp add: replicate_append_same [symmetric])
    finally have sl: "py_slice d rs (i + ps) = concat (replicate (Suc k) (py_slice d rs (rs + ps)))" .
    from True have c1: "i + ps \<le> length d \<and> i - rs < 127 * ps" by simp
    from True have c2: "\<not> py_slice d i (i + ps) \<noteq> py_slice d rs (rs + ps)" by simp
    from "1.IH" [OF c1 c2 i' k _ sl] True
    obtain k' where "run_scan d ps rs (i + ps) = rs + k' * ps" "Suc k \<le> k'" "k' \<le> 127"
      "rs + k' * ps \<le> length d"
      "py_slice d rs (rs + k' * ps) = concat (replicate k' (py_slice d rs (rs + ps)))"
      by auto
    then show ?thesis using unf by (intro exI [of _ k']) simp
  next
    case False
    then have "run_scan d ps rs i = i"
      by (subst run_scan.simps) auto
    then show ?thesis using "1.prems" by (intro exI [of _ k]) simp
  qed
qed

lemma literal_scan_inv:
  "i = ls + k * ps \<Longrightarrow> k \<le> 127 \<Longrightarrow> i \<le> length d
    \<Longrightarrow> \<exists>k'. literal_scan d ps ls i = ls + k' * ps \<and> k \<le> k' \<and> k' \<le> 127
          \<and> ls + k' * ps \<le> length d"
proof (induction d ps ls i arbitrary: k rule: literal_scan.induct)
  case (1 d ps ls i)
  let ?brk = "i + ps * 2 \<le> length d
            \<and> py_slice d i (i + ps) = py_slice d (i + ps) (i + ps * 2)
            \<and> py_slice d (i + ps) (i + ps * 2) = py_slice d (i + ps * 2) (i + ps * 3)"
  show ?case
  proof (cases "i + ps \<le> length d \<and> i - ls < 127 * ps \<and> \<not> ?brk")
    case True
    have unf: "literal_scan d ps ls i = literal_scan d ps ls (i + ps)"
      by (subst literal_scan.simps) (use True in auto)
    from True "1.prems"(1) have "k * ps < 127 * ps" by simp
    then have k: "Suc k \<le> 127" by simp
    have i': "i + ps = ls + Suc k * ps" using "1.prems"(1) by simp
    from True have c1: "i + ps \<le> length d \<and> i - ls < 127 * ps" by simp
    from True have c2: "\<not> ?brk" by simp
    from "1.IH" [OF c1 c2 i' k] True
    obtain k' where "literal_scan d ps ls (i + ps) = ls + k' * ps" "Suc k \<le> k'" "k' \<le> 127"
      "ls + k' * ps \<le> length d"
      by auto
    then show ?thesis using unf by (intro exI [of _ k']) simp
  next
    case False
    then have "literal_scan d ps ls i = i"
      by (subst literal_scan.simps) auto
    then show ?thesis using "1.prems" by (intro exI [of _ k]) simp
  qed
qed


lemma or_128: "n \<le> 127 \<Longrightarrow> (0x80::nat) OR n = 128 + n"
proof -
  assume a: "n \<le> 127"
  have "n div 128 = 0" using a by simp
  then have nb: "\<not> bit n 7" by (simp add: bit_iff_odd)
  have b128: "bit (128::nat) m \<longleftrightarrow> m = 7" for m
    using bit_exp_iff [where ?'a = nat, of 7 m] by auto
  have "(128 :: nat) AND n = 0"
    by (rule bit_eqI) (use nb in \<open>auto simp: bit_simps b128\<close>)
  then have "(128 :: nat) + n = 128 OR n"
    by (rule disjunctive_add_eq_or)
  then show ?thesis by simp
qed

lemma enc_step_repeat:
  assumes "0 < ps" "i < length d" "run_scan d ps i i = i + k * ps" "2 \<le> k" "k \<le> 127"
  shows "rle_encode_loop d ps i out
         = rle_encode_loop d ps (i + k * ps) (out @ seg_bytes (Repeat k (py_slice d i (i + ps))))"
  using assms
  by (subst rle_encode_loop.simps) (simp add: Let_def append_byte_def or_128 del: of_nat_add)

lemma enc_step_literal:
  assumes "0 < ps" "i < length d" "run_scan d ps i i = i + k * ps" "k \<le> 1"
    "literal_scan d ps i (i + ps) = i + m * ps" "m \<le> 127"
  shows "rle_encode_loop d ps i out
         = rle_encode_loop d ps (i + m * ps) (out @ seg_bytes (Literal m (py_slice d i (i + m * ps))))"
  using assms
  by (subst rle_encode_loop.simps) (simp add: Let_def append_byte_def)

lemma run_scan_first:
  assumes "0 < ps" "i + ps \<le> length d"
  shows "\<exists>k. run_scan d ps i i = i + k * ps \<and> 1 \<le> k \<and> k \<le> 127 \<and> i + k * ps \<le> length d
          \<and> py_slice d i (i + k * ps) = concat (replicate k (py_slice d i (i + ps)))"
proof -
  have unf: "run_scan d ps i i = run_scan d ps i (i + ps)"
    by (subst run_scan.simps) (use assms in simp)
  have "\<exists>k'. run_scan d ps i (i + ps) = i + k' * ps \<and> 1 \<le> k' \<and> k' \<le> 127
          \<and> i + k' * ps \<le> length d
          \<and> py_slice d i (i + k' * ps) = concat (replicate k' (py_slice d i (i + ps)))"
    using assms by (intro run_scan_inv) simp_all
  then show ?thesis using unf by simp
qed

lemma literal_scan_first:
  assumes "i + ps \<le> length d"
  shows "\<exists>m. literal_scan d ps i (i + ps) = i + m * ps \<and> 1 \<le> m \<and> m \<le> 127
          \<and> i + m * ps \<le> length d"
  using assms by (intro literal_scan_inv) simp_all

lemma dvd_tail: "(ps::nat) dvd n - i \<Longrightarrow> i + k * ps \<le> n \<Longrightarrow> ps dvd n - (i + k * ps)"
proof -
  assume a: "ps dvd n - i" "i + k * ps \<le> n"
  have "ps dvd (n - i) - k * ps" by (rule dvd_diff_nat) (use a in simp_all)
  then show ?thesis by (simp only: diff_diff_left)
qed

lemma rle_encode_loop_segments:
  assumes ps: "0 < ps"
  shows "i \<le> length d \<Longrightarrow> ps dvd length d - i
    \<Longrightarrow> \<exists>segs. rle_encode_loop d ps i out = Inr (out @ concat (map seg_bytes segs))
          \<and> (\<forall>s \<in> set segs. seg_wf ps s)
          \<and> concat (map seg_pixels segs) = drop i d"
proof (induction "length d - i" arbitrary: i out rule: less_induct)
  case less
  show ?case
  proof (cases "i < length d")
    case False
    then have "rle_encode_loop d ps i out = Inr out"
      by (subst rle_encode_loop.simps) simp
    then show ?thesis using False less.prems by (intro exI [of _ "[]"]) simp
  next
    case True
    with less.prems ps have room: "i + ps \<le> length d"
      by (metis add.commute dvd_imp_le le_add_diff_inverse2 less_imp_le_nat nat_add_left_cancel_le zero_less_diff)
    from run_scan_first [OF ps room]
    obtain k where k: "run_scan d ps i i = i + k * ps" "1 \<le> k" "k \<le> 127" "i + k * ps \<le> length d"
      "py_slice d i (i + k * ps) = concat (replicate k (py_slice d i (i + ps)))"
      by blast
    show ?thesis
    proof (cases "2 \<le> k")
      case True
      let ?s = "Repeat k (py_slice d i (i + ps))"
      let ?i' = "i + k * ps"
      have step: "rle_encode_loop d ps i out = rle_encode_loop d ps ?i' (out @ seg_bytes ?s)"
        using ps \<open>i < length d\<close> k True by (intro enc_step_repeat) simp_all
      have "i < ?i'" using ps True by simp
      then have m: "length d - ?i' < length d - i" using \<open>i < length d\<close> by linarith
      from less.hyps [OF m k(4) dvd_tail [OF less.prems(2) k(4)], of "out @ seg_bytes ?s"]
      obtain segs where segs:
        "rle_encode_loop d ps ?i' (out @ seg_bytes ?s)
           = Inr ((out @ seg_bytes ?s) @ concat (map seg_bytes segs))"
        "\<forall>s \<in> set segs. seg_wf ps s" "concat (map seg_pixels segs) = drop ?i' d"
        by blast
      have wf: "seg_wf ps ?s" using True k room by (simp add: length_py_slice)
      have "drop i d = py_slice d i ?i' @ drop ?i' d"
        by (intro py_slice_to_end) simp
      then have px: "concat (map seg_pixels (?s # segs)) = drop i d"
        using segs(3) k(5) by simp
      show ?thesis
        using step segs(1,2) wf px by (intro exI [of _ "?s # segs"]) simp
    next
      case False
      from literal_scan_first [OF room]
      obtain m where m: "literal_scan d ps i (i + ps) = i + m * ps" "1 \<le> m" "m \<le> 127"
        "i + m * ps \<le> length d"
        by blast
      let ?s = "Literal m (py_slice d i (i + m * ps))"
      let ?i' = "i + m * ps"
      have step: "rle_encode_loop d ps i out = rle_encode_loop d ps ?i' (out @ seg_bytes ?s)"
        using ps \<open>i < length d\<close> k(1) False m by (intro enc_step_literal [where k = k]) simp_all
      have "i < ?i'" using ps m(2) by simp
      then have ms: "length d - ?i' < length d - i" using \<open>i < length d\<close> by linarith
      from less.hyps [OF ms m(4) dvd_tail [OF less.prems(2) m(4)], of "out @ seg_bytes ?s"]
      obtain segs where segs:
        "rle_encode_loop d ps ?i' (out @ seg_bytes ?s)
           = Inr ((out @ seg_bytes ?s) @ concat (map seg_bytes segs))"
        "\<forall>s \<in> set segs. seg_wf ps s" "concat (map seg_pixels segs) = drop ?i' d"
        by blast
      have wf: "seg_wf ps ?s" using m by (simp add: length_py_slice)
      have "drop i d = py_slice d i ?i' @ drop ?i' d"
        by (intro py_slice_to_end) simp
      then have px: "concat (map seg_pixels (?s # segs)) = drop i d"
        using segs(3) by simp
      show ?thesis
        using step segs(1,2) wf px by (intro exI [of _ "?s # segs"]) simp
    qed
  qed
qed

lemma byte_unat_of_nat: "n < 256 \<Longrightarrow> unat (of_nat n :: byte) = n"
  by (simp add: unat_of_nat)

lemma byte_lit_tag: "n \<le> 127 \<Longrightarrow> (of_nat n :: byte) < 0x80"
  by (simp add: word_less_nat_alt unat_of_nat)

lemma byte_rep_tag: "128 \<le> k \<Longrightarrow> k < 256 \<Longrightarrow> \<not> (of_nat k :: byte) < 0x80"
  by (simp add: word_less_nat_alt unat_of_nat)

lemma byte_rep_count:
  assumes a: "128 \<le> k" "k < 256"
  shows "unat ((of_nat k :: byte) AND 0x7f) = k - 128"
proof -
  have "(0x7f :: byte) = mask 7" by (simp add: mask_eq_exp_minus_1)
  then have "unat ((of_nat k :: byte) AND 0x7f) = unat (take_bit 7 (of_nat k :: byte))"
    by (simp add: take_bit_eq_mask)
  also have "\<dots> = take_bit 7 (unat (of_nat k :: byte))"
    by (simp add: unsigned_take_bit_eq)
  also have "\<dots> = k mod 128"
    using a by (simp add: unat_of_nat take_bit_eq_mod)
  also have "\<dots> = k - 128"
    using a by (simp add: le_mod_geq)
  finally show ?thesis .
qed

lemma py_slice_payload:
  "length p = n \<Longrightarrow> py_slice (pre @ t # p @ rest) (Suc (length pre)) (Suc (length pre + n)) = p"
  by (simp add: py_slice_def)

lemma dec_step:
  assumes "seg_wf ps s"
  shows "rle_decode_loop (pre @ seg_bytes s @ rest) ps (length pre, acc)
         = rle_decode_loop (pre @ seg_bytes s @ rest) ps
             (length (pre @ seg_bytes s), acc @ seg_pixels s)"
proof (cases s)
  case (Literal n p)
  with assms have n: "1 \<le> n" "n \<le> 127" "length p = n * ps" by simp_all
  then have u: "unat (of_nat n :: byte) = n" by (simp add: unat_of_nat)
  show ?thesis
    unfolding Literal seg_bytes.simps seg_pixels.simps
    by (subst rle_decode_loop.simps)
       (simp add: rle_decode_body_def Let_def byte_lit_tag u n py_slice_payload [OF n(3)] nth_append)
next
  case (Repeat n p)
  with assms have n: "2 \<le> n" "n \<le> 127" "length p = ps" by simp_all
  have t: "\<not> (of_nat (128 + n) :: byte) < 0x80"
    using n by (intro byte_rep_tag) simp_all
  have c: "unat ((of_nat (128 + n) :: byte) AND 0x7f) = n"
    using n byte_rep_count [of "128 + n"] by simp
  show ?thesis
    unfolding Repeat seg_bytes.simps seg_pixels.simps
    by (subst rle_decode_loop.simps)
       (simp add: rle_decode_body_def Let_def t c n py_slice_payload [OF n(3)] nth_append
          del: of_nat_add)
qed

lemma rle_decode_loop_segments:
  "\<forall>s \<in> set segs. seg_wf ps s
   \<Longrightarrow> rle_decode_loop (pre @ concat (map seg_bytes segs)) ps (length pre, acc)
       = Some (acc @ concat (map seg_pixels segs))"
proof (induction segs arbitrary: pre acc)
  case Nil
  show ?case by (subst rle_decode_loop.simps) simp
next
  case (Cons s segs)
  then have wf: "seg_wf ps s" and wfs: "\<forall>s \<in> set segs. seg_wf ps s" by simp_all
  have "rle_decode_loop (pre @ concat (map seg_bytes (s # segs))) ps (length pre, acc)
        = rle_decode_loop (pre @ seg_bytes s @ concat (map seg_bytes segs)) ps (length pre, acc)"
    by simp
  also have "\<dots> = rle_decode_loop (pre @ seg_bytes s @ concat (map seg_bytes segs)) ps
                     (length (pre @ seg_bytes s), acc @ seg_pixels s)"
    by (rule dec_step [OF wf])
  also have "\<dots> = rle_decode_loop ((pre @ seg_bytes s) @ concat (map seg_bytes segs)) ps
                     (length (pre @ seg_bytes s), acc @ seg_pixels s)"
    by simp
  also have "\<dots> = Some ((acc @ seg_pixels s) @ concat (map seg_pixels segs))"
    by (rule Cons.IH [OF wfs])
  finally show ?case by simp
qed

lemma seg_step:
  assumes "seg_wf ps s"
  shows "rle_segments (pre @ seg_bytes s @ rest) ps (length pre)
         = s # rle_segments (pre @ seg_bytes s @ rest) ps (length (pre @ seg_bytes s))"
proof (cases s)
  case (Literal n p)
  with assms have n: "1 \<le> n" "n \<le> 127" "length p = n * ps" by simp_all
  then have u: "unat (of_nat n :: byte) = n" by (simp add: unat_of_nat)
  show ?thesis
    unfolding Literal seg_bytes.simps
    by (subst rle_segments.simps)
       (simp add: rle_decode_body_def Let_def byte_lit_tag u n py_slice_payload [OF n(3)] nth_append)
next
  case (Repeat n p)
  with assms have n: "2 \<le> n" "n \<le> 127" "length p = ps" by simp_all
  have t: "\<not> (of_nat (128 + n) :: byte) < 0x80"
    using n by (intro byte_rep_tag) simp_all
  have c: "unat ((of_nat (128 + n) :: byte) AND 0x7f) = n"
    using n byte_rep_count [of "128 + n"] by simp
  show ?thesis
    unfolding Repeat seg_bytes.simps
    by (subst rle_segments.simps)
       (simp add: rle_decode_body_def Let_def t c n py_slice_payload [OF n(3)] nth_append
          del: of_nat_add)
qed

lemma rle_segments_segments:
  "\<forall>s \<in> set segs. seg_wf ps s
   \<Longrightarrow> rle_segments (pre @ concat (map seg_bytes segs)) ps (length pre) = segs"
proof (induction segs arbitrary: pre)
  case Nil
  show ?case by (subst rle_segments.simps) simp
next
  case (Cons s segs)
  then have wf: "seg_wf ps s" and wfs: "\<forall>s \<in> set segs. seg_wf ps s" by simp_all
  have "rle_segments (pre @ concat (map seg_bytes (s # segs))) ps (length pre)
        = rle_segments (pre @ seg_bytes s @ concat (map seg_bytes segs)) ps (length pre)"
    by simp
  also have "\<dots> = s # rle_segments (pre @ seg_bytes s @ concat (map seg_bytes segs)) ps
                     (length (pre @ seg_bytes s))"
    by (rule seg_step [OF wf])
  also have "\<dots> = s # rle_segments ((pre @ seg_bytes s) @ concat (map seg_bytes segs)) ps
                     (length (pre @ seg_bytes s))"
    by simp
  also have "\<dots> = s # segs"
    using Cons.IH [OF wfs, of "pre @ seg_bytes s"] by simp
  finally show ?case .
qed


lemma rle_decode_body_advances:
  "i < fst (rle_decode_body d ps (i, out))"
  by (simp add: rle_decode_body_def Let_def)

lemma rle_decode_loop_total: "\<exists>r. rle_decode_loop d ps (i, out) = Some r"
proof (induction "length d - i" arbitrary: i out rule: less_induct)
  case less
  show ?case
  proof (cases "i < length d")
    case False
    then show ?thesis by (subst rle_decode_loop.simps) simp
  next
    case True
    obtain i' out' where b: "rle_decode_body d ps (i, out) = (i', out')"
      by (cases "rle_decode_body d ps (i, out)")
    with rle_decode_body_advances [of i d ps out] have "i < i'" by simp
    with True have "length d - i' < length d - i" by linarith
    from less.hyps [OF this, of out'] obtain r where "rle_decode_loop d ps (i', out') = Some r"
      by blast
    then show ?thesis using True b by (subst rle_decode_loop.simps) simp
  qed
qed

text \<open>Claim C1: for every byte buffer \<open>b\<close> and every \<open>pixelSize \<ge> 1\<close> such that
  \<open>len(b)\<close> is a multiple of \<open>pixelSize\<close>, \<open>rle_encode\<close> returns a stream and decoding that
  stream with \<open>rle_decode\<close> reproduces \<open>b\<close> exactly.\<close>

theorem rle_roundtrip:
  assumes "1 \<le> pixelSize" "pixelSize dvd length b"
  shows "\<exists>e. rle_encode b pixelSize = Inr e \<and> rle_decode e pixelSize = Some b"
proof -
  from assms have ps: "0 < pixelSize" by simp
  from rle_encode_loop_segments [OF ps, of 0 b "[]"] assms(2)
  obtain segs where segs: "rle_encode_loop b pixelSize 0 [] = Inr (concat (map seg_bytes segs))"
    "\<forall>s \<in> set segs. seg_wf pixelSize s" "concat (map seg_pixels segs) = b"
    by auto
  from rle_decode_loop_segments [OF segs(2), of "[]" "[]"] segs(3)
  have "rle_decode (concat (map seg_bytes segs)) pixelSize = Some b"
    by (simp add: rle_decode_def)
  with segs(1) show ?thesis by (simp add: rle_encode_def)
qed

theorem rle_roundtrip_witness:
  "(1::nat) \<le> 2 \<and> 2 dvd length [1, 2, 1, 2, 1, 2, 3, 4 :: byte]
   \<and> (\<exists>e. rle_encode [1, 2, 1, 2, 1, 2, 3, 4] 2 = Inr e
          \<and> rle_decode e 2 = Some [1, 2, 1, 2, 1, 2, 3, 4])"
  using rle_roundtrip [of 2 "[1, 2, 1, 2, 1, 2, 3, 4]"] by simp

text \<open>Claim C8: for every buffer whose length is a multiple of \<open>pixelSize \<ge> 1\<close>, every
  segment of the stream produced by \<open>rle_encode\<close> has a count in range: a repeat segment
  between 2 and 127, a literal segment between 1 and 127.\<close>

theorem rle_encode_segment_counts:
  assumes "1 \<le> pixelSize" "pixelSize dvd length b"
  shows "\<exists>e. rle_encode b pixelSize = Inr e
          \<and> (\<forall>s \<in> set (rle_segments e pixelSize 0).
                case s of Repeat n p \<Rightarrow> 2 \<le> n \<and> n \<le> 127
                        | Literal n p \<Rightarrow> 1 \<le> n \<and> n \<le> 127)"
proof -
  from assms have ps: "0 < pixelSize" by simp
  from rle_encode_loop_segments [OF ps, of 0 b "[]"] assms(2)
  obtain segs where segs: "rle_encode_loop b pixelSize 0 [] = Inr (concat (map seg_bytes segs))"
    "\<forall>s \<in> set segs. seg_wf pixelSize s"
    by auto
  from rle_segments_segments [OF segs(2), of "[]"]
  have "rle_segments (concat (map seg_bytes segs)) pixelSize 0 = segs" by simp
  moreover have "case s of Repeat n p \<Rightarrow> 2 \<le> n \<and> n \<le> 127 | Literal n p \<Rightarrow> 1 \<le> n \<and> n \<le> 127"
    if "s \<in> set segs" for s
    using segs(2) that by (cases s) auto
  ultimately show ?thesis using segs(1) by (simp add: rle_encode_def)
qed

theorem rle_encode_segment_counts_witness:
  "(1::nat) \<le> 1 \<and> 1 dvd length [1, 1, 1, 2, 3, 3, 4 :: byte]
   \<and> (\<exists>e. rle_encode [1, 1, 1, 2, 3, 3, 4] 1 = Inr e
          \<and> (\<forall>s \<in> set (rle_segments e 1 0).
                case s of Repeat n p \<Rightarrow> 2 \<le> n \<and> n \<le> 127
                        | Literal n p \<Rightarrow> 1 \<le> n \<and> n \<le> 127))"
  using rle_encode_segment_counts [of 1 "[1, 1, 1, 2, 3, 3, 4]"] by simp

text \<open>Claim C9: \<open>rle_decode\<close> terminates on every input, malformed ones included: the loop
  returns a buffer, each iteration moves the read position strictly forward (it consumes at
  least the tag byte), and a repeat segment with count field 0 (tag \<open>0x80\<close>) consumes its
  pixel and leaves the output unchanged.\<close>

theorem rle_decode_terminates:
  "(\<exists>out. rle_decode d pixelSize = Some out)
   \<and> (i < length d \<longrightarrow> i < fst (rle_decode_body d pixelSize (i, out)))
   \<and> (i < length d \<and> d ! i = 0x80 \<longrightarrow>
        rle_decode_body d pixelSize (i, out) = (i + 1 + pixelSize, out))"
proof (intro conjI impI)
  show "\<exists>out. rle_decode d pixelSize = Some out"
    unfolding rle_decode_def by (rule rle_decode_loop_total)
  show "i < fst (rle_decode_body d pixelSize (i, out))"
    by (rule rle_decode_body_advances)
  show "rle_decode_body d pixelSize (i, out) = (i + 1 + pixelSize, out)"
    if "i < length d \<and> d ! i = 0x80"
    using that by (simp add: rle_decode_body_def)
qed

theorem rle_decode_terminates_witness:
  "(\<exists>out. rle_decode [0x80, 9, 1, 7] 1 = Some out)
   \<and> (0::nat) < length [0x80, 9, 1, 7 :: byte]
   \<and> 0 < fst (rle_decode_body [0x80, 9, 1, 7] 1 (0, []))
   \<and> [0x80, 9, 1, 7 :: byte] ! 0 = 0x80
   \<and> rle_decode_body [0x80, 9, 1, 7] 1 (0, []) = (2, [])"
  using rle_decode_terminates [of "[0x80, 9, 1, 7]" 1 0 "[]"] by simp

text \<open>Claim C2 says that a run declared past the end of the input makes \<open>rle_decode\<close>
  report an error. It does not: a literal tag 5 followed by a single byte returns that
  byte, and a repeat tag with count 3 followed by one byte of a two-byte pixel returns the
  shortened pixel three times.\<close>

theorem rle_decode_silent_truncation:
  "rle_decode [5, 1] 1 = Some [1] \<and> rle_decode [0x83, 7] 2 = Some [7, 7, 7]"
  by code_simp

text \<open>Claim C2, amended: \<open>rle_decode\<close> has no error path. At any loop state, a literal
  run that declares more payload than remains appends just the remaining bytes, a repeat
  run with fewer than \<open>pixelSize\<close> bytes remaining appends the shortened pixel \<open>count\<close>
  times, and in both cases the loop then returns the output normally.\<close>

theorem rle_decode_truncates:
  "(i < length d \<and> d ! i < 0x80 \<and> length d < i + 1 + unat (d ! i) * pixelSize \<longrightarrow>
      rle_decode_loop d pixelSize (i, out) = Some (out @ drop (i + 1) d))
   \<and> (i < length d \<and> \<not> d ! i < 0x80 \<and> length d < i + 1 + pixelSize \<longrightarrow>
      rle_decode_loop d pixelSize (i, out)
        = Some (out @ concat (replicate (unat (d ! i AND 0x7f)) (drop (i + 1) d))))"
proof (intro conjI impI)
  assume a: "i < length d \<and> d ! i < 0x80 \<and> length d < i + 1 + unat (d ! i) * pixelSize"
  have stop: "rle_decode_loop d pixelSize (i + 1 + unat (d ! i) * pixelSize, r) = Some r" for r
    using a by (subst rle_decode_loop.simps) simp
  show "rle_decode_loop d pixelSize (i, out) = Some (out @ drop (i + 1) d)"
    using a stop
    by (subst rle_decode_loop.simps) (auto simp: rle_decode_body_def py_slice_def Let_def)
next
  assume a: "i < length d \<and> \<not> d ! i < 0x80 \<and> length d < i + 1 + pixelSize"
  have stop: "rle_decode_loop d pixelSize (i + 1 + pixelSize, r) = Some r" for r
    using a by (subst rle_decode_loop.simps) simp
  show "rle_decode_loop d pixelSize (i, out)
        = Some (out @ concat (replicate (unat (d ! i AND 0x7f)) (drop (i + 1) d)))"
    using a stop
    by (subst rle_decode_loop.simps) (auto simp: rle_decode_body_def py_slice_def Let_def)
qed

theorem rle_decode_truncates_witness:
  "(0::nat) < length [5, 1 :: byte] \<and> [5, 1 :: byte] ! 0 < 0x80
   \<and> length [5, 1 :: byte] < 0 + 1 + unat ([5, 1 :: byte] ! 0) * 1
   \<and> rle_decode_loop [5, 1] 1 (0, []) = Some ([] @ drop (0 + 1) [5, 1])
   \<and> (0::nat) < length [0x83, 7 :: byte] \<and> \<not> [0x83, 7 :: byte] ! 0 < 0x80
   \<and> length [0x83, 7 :: byte] < 0 + 1 + 2
   \<and> rle_decode_loop [0x83, 7] 2 (0, [])
       = Some ([] @ concat (replicate (unat ([0x83, 7 :: byte] ! 0 AND 0x7f)) (drop (0 + 1) [0x83, 7])))"
  using rle_decode_truncates [of 0 "[5, 1]" 1 "[]"] rle_decode_truncates [of 0 "[0x83, 7]" 2 "[]"]
  by simp

section \<open>Properties of the raster header\<close>

lemma replicate_32: "replicate 0x20 x = [x,x,x,x,x,x,x,x,x,x,x,x,x,x,x,x,x,x,x,x,x,x,x,x,x,x,x,x,x,x,x,x]"
  by (simp add: numeral_eq_Suc)

lemma unat_byte: "unat (of_nat k :: byte) = k mod 256"
  by (simp add: unat_of_nat)

lemma u16_roundtrip:
  assumes "n < 65536"
  shows "n mod 256 + (n div 256) mod 256 * 256 = (n::nat)"
proof -
  have "n div 256 < 256" using assms by (simp add: less_mult_imp_div_less)
  then have "(n div 256) mod 256 = n div 256" by simp
  then show ?thesis by simp
qed

lemma u32_roundtrip:
  assumes "n < 4294967296"
  shows "n mod 256 + (n div 256) mod 256 * 256 + (n div 65536) mod 256 * 65536
     + (n div 16777216) mod 256 * 16777216 = (n::nat)"
proof -
  define a where "a = n div 256"
  define b where "b = a div 256"
  define c where "c = b div 256"
  have b: "n div 65536 = b"
    unfolding b_def a_def by (simp add: div_mult2_eq [symmetric])
  have c: "n div 16777216 = c"
    unfolding c_def b_def a_def by (simp add: div_mult2_eq [symmetric])
  have "c < 256" using assms unfolding c [symmetric] by (simp add: less_mult_imp_div_less)
  then have c': "c mod 256 = c" by simp
  have n: "n = n mod 256 + 256 * a" unfolding a_def by simp
  have a: "a = a mod 256 + 256 * b" unfolding b_def by simp
  have b': "b = b mod 256 + 256 * c" unfolding c_def by simp
  show ?thesis
    unfolding b c c' a_def [symmetric] using n a b' by linarith
qed

lemma unpack_pack_u32:
  "n < 4294967296 \<Longrightarrow>
   unpack_u32 [of_nat n, of_nat (n div 256), of_nat (n div 65536), of_nat (n div 16777216)]
     = Inr n"
  using u32_roundtrip [of n] by (simp add: unpack_u32_def unat_byte)

lemma unpack_pack_u16:
  "n < 65536 \<Longrightarrow> unpack_u16 [of_nat n, of_nat (n div 256)] = Inr n"
  using u16_roundtrip [of n] by (simp add: unpack_u16_def unat_byte)

lemma write_cm_metadata_bytes:
  assumes "width md < 2 ^ 16" "height md < 2 ^ 16" "colors md < 2 ^ 16" "bpp md < 2 ^ 8"
    "data_offset md < 2 ^ 32" "data_length md < 2 ^ 32" "md_size md < 2 ^ 32"
  shows "write_cm_metadata md =
    Inr ([0x43, 0x4D]
         @ [of_nat (md_size md), of_nat (md_size md div 2 ^ 8), of_nat (md_size md div 2 ^ 16),
            of_nat (md_size md div 2 ^ 24)]
         @ [of_nat (width md), of_nat (width md div 2 ^ 8)]
         @ [of_nat (height md), of_nat (height md div 2 ^ 8)]
         @ [of_nat (colors md), of_nat (colors md div 2 ^ 8)]
         @ [of_nat (bpp md), if is_compressed md then 1 else 0, 1, 0]
         @ [of_nat (data_offset md), of_nat (data_offset md div 2 ^ 8),
            of_nat (data_offset md div 2 ^ 16), of_nat (data_offset md div 2 ^ 24)]
         @ [of_nat (data_length md), of_nat (data_length md div 2 ^ 8),
            of_nat (data_length md div 2 ^ 16), of_nat (data_length md div 2 ^ 24)]
         @ [0, 0, 0, 0, 0, 0, 0, 0])"
  using assms
  by (simp add: write_cm_metadata_def ebind_def pack_u32_def pack_u16_def set_slice_def
      set_byte_def Let_def replicate_32)

lemma read_cm_metadata_bytes:
  assumes "w < 2 ^ 16" "h < 2 ^ 16" "c < 2 ^ 16" "b < 2 ^ 8" "off < 2 ^ 32" "len < 2 ^ 32"
    "sz < 2 ^ 32"
    and hd: "hdr = [0x43, 0x4D]
         @ [of_nat sz, of_nat (sz div 2 ^ 8), of_nat (sz div 2 ^ 16), of_nat (sz div 2 ^ 24)]
         @ [of_nat w, of_nat (w div 2 ^ 8)]
         @ [of_nat h, of_nat (h div 2 ^ 8)]
         @ [of_nat c, of_nat (c div 2 ^ 8)]
         @ [of_nat b, if f then 1 else 0, 1, 0]
         @ [of_nat off, of_nat (off div 2 ^ 8), of_nat (off div 2 ^ 16), of_nat (off div 2 ^ 24)]
         @ [of_nat len, of_nat (len div 2 ^ 8), of_nat (len div 2 ^ 16), of_nat (len div 2 ^ 24)]
         @ [0, 0, 0, 0, 0, 0, 0, 0]"
    and sz: "sz = length (hdr @ rest)"
  shows "read_cm_metadata (hdr @ rest) =
     Inr (Some \<lparr>width = w, height = h, colors = c, bpp = b, is_compressed = f,
                data_offset = off, data_length = len\<rparr>)"
proof -
  have t: "take 0x20 (hdr @ rest) = hdr" by (simp add: hd)
  have ub: "unat (of_nat b :: byte) = b" using assms(4) by (simp add: unat_of_nat)
  have f: "((if f then 1 else 0 :: byte) \<noteq> 0) = f" by simp
  have s1: "py_slice hdr 0 2 = [0x43, 0x4D]" by (simp add: hd py_slice_def)
  have s2: "unpack_u32 (py_slice hdr 2 6) = Inr sz"
    using assms(7) by (simp add: hd py_slice_def unpack_pack_u32)
  have s3: "unpack_u16 (py_slice hdr 6 8) = Inr w"
    using assms(1) by (simp add: hd py_slice_def unpack_pack_u16)
  have s4: "unpack_u16 (py_slice hdr 8 10) = Inr h"
    using assms(2) by (simp add: hd py_slice_def unpack_pack_u16)
  have s5: "unpack_u16 (py_slice hdr 0x0A 0x0C) = Inr c"
    using assms(3) by (simp add: hd py_slice_def unpack_pack_u16)
  have s6: "get_byte hdr 0x0C = Inr (of_nat b)" by (simp add: hd get_byte_def)
  have s7: "get_byte hdr 0x0D = Inr (if f then 1 else 0)" by (simp add: hd get_byte_def)
  have s8: "get_byte hdr 0x0E = Inr 1" by (simp add: hd get_byte_def)
  have s9: "unpack_u32 (py_slice hdr 0x10 0x14) = Inr off"
    using assms(5) by (simp add: hd py_slice_def unpack_pack_u32)
  have s10: "unpack_u32 (py_slice hdr 0x14 0x18) = Inr len"
    using assms(6) by (simp add: hd py_slice_def unpack_pack_u32)
  show ?thesis
    unfolding read_cm_metadata_def t Let_def s1 s2 s3 s4 s5 s6 s7 s8 s9 s10 ebind_def
    using sz ub f by simp
qed


text \<open>Claim C10: for every metadata record whose fields fit their header fields, the
  0x20-byte header written by \<open>write_cm_metadata\<close> starts with \<open>CM\<close>, has version byte 1
  at 0x0E, and, when the stored size equals the length of the file that begins with it,
  \<open>read_cm_metadata\<close> recovers width, height, colors, bpp, the compression flag, data
  offset and data length.\<close>

theorem cm_header_roundtrip:
  assumes "width md < 2 ^ 16" "height md < 2 ^ 16" "colors md < 2 ^ 16" "bpp md < 2 ^ 8"
    "data_offset md < 2 ^ 32" "data_length md < 2 ^ 32" "md_size md < 2 ^ 32"
  shows "\<exists>hdr. write_cm_metadata md = Inr hdr \<and> length hdr = 0x20
           \<and> py_slice hdr 0 2 = [0x43, 0x4D] \<and> get_byte hdr 0x0E = Inr 1
           \<and> (\<forall>rest. md_size md = length (hdr @ rest) \<longrightarrow>
                 read_cm_metadata (hdr @ rest) =
                   Inr (Some \<lparr>width = width md, height = height md, colors = colors md,
                              bpp = bpp md, is_compressed = is_compressed md,
                              data_offset = data_offset md,
                              data_length = data_length md\<rparr>))"
proof -
  define hdr where "hdr = [0x43, 0x4D]
         @ [of_nat (md_size md), of_nat (md_size md div 2 ^ 8), of_nat (md_size md div 2 ^ 16),
            of_nat (md_size md div 2 ^ 24)]
         @ [of_nat (width md), of_nat (width md div 2 ^ 8)]
         @ [of_nat (height md), of_nat (height md div 2 ^ 8)]
         @ [of_nat (colors md), of_nat (colors md div 2 ^ 8)]
         @ [of_nat (bpp md), if is_compressed md then 1 else 0, 1, 0]
         @ [of_nat (data_offset md), of_nat (data_offset md div 2 ^ 8),
            of_nat (data_offset md div 2 ^ 16), of_nat (data_offset md div 2 ^ 24)]
         @ [of_nat (data_length md), of_nat (data_length md div 2 ^ 8),
            of_nat (data_length md div 2 ^ 16), of_nat (data_length md div 2 ^ 24)]
         @ [0, 0, 0, 0, 0, 0, 0, 0 :: byte]"
  have w: "write_cm_metadata md = Inr hdr"
    unfolding hdr_def by (rule write_cm_metadata_bytes [OF assms])
  have l: "length hdr = 0x20" by (simp add: hdr_def)
  have m: "py_slice hdr 0 2 = [0x43, 0x4D]" by (simp add: hdr_def py_slice_def)
  have v: "get_byte hdr 0x0E = Inr 1" by (simp add: hdr_def get_byte_def)
  have r: "read_cm_metadata (hdr @ rest) =
       Inr (Some \<lparr>width = width md, height = height md, colors = colors md,
                  bpp = bpp md, is_compressed = is_compressed md,
                  data_offset = data_offset md, data_length = data_length md\<rparr>)"
    if "md_size md = length (hdr @ rest)" for rest
    by (rule read_cm_metadata_bytes [OF assms hdr_def that])
  from w l m v r show ?thesis by blast
qed

theorem cm_header_roundtrip_witness:
  "\<exists>hdr. write_cm_metadata \<lparr>width = 640, height = 480, colors = 0, bpp = 24,
              is_compressed = True, data_offset = 32, data_length = 3, md_size = 35\<rparr> = Inr hdr
     \<and> length hdr = 0x20
     \<and> 35 = length (hdr @ [7, 8, 9])
     \<and> read_cm_metadata (hdr @ [7, 8, 9]) =
          Inr (Some \<lparr>width = 640, height = 480, colors = 0, bpp = 24, is_compressed = True,
                     data_offset = 32, data_length = 3\<rparr>)"
  using cm_header_roundtrip [of "\<lparr>width = 640, height = 480, colors = 0, bpp = 24,
              is_compressed = True, data_offset = 32, data_length = 3, md_size = 35\<rparr>"]
  by auto

section \<open>Properties of the archive container\<close>

text \<open>Rules that evaluate \<open>try_open\<close> and \<open>pack_files\<close> on concrete files.\<close>

lemmas arc_eval =
  try_open_def ebind_def read_uint32_def read_int32_def read_uint16_def read_byte_def
  read_string_def read_bytes_def unpack_u32_def unpack_i32_def unpack_u16_def unpack_u8_def
  py_slice_def decode_ascii_def rstrip_nul_def char_of_byte_def detect_file_type_def
  entry_type_for_def check_placement_def is_mask_arc_def lower_def lower_char_def basename_def
  os_path_join_def try_open_loop.simps advance_folder.simps Let_def char_of_def bit_Suc_0_iff

lemma replicate_numeral: "replicate (numeral k) x = x # replicate (pred_numeral k) x"
  by (simp add: numeral_eq_Suc)

lemmas pack_eval =
  pack_files_def collect_entries_def splitext_root_def basename_def ljust_nul_def
  pack_u32_def ebind_def is_ascii_def byte_of_char_def Let_def pack_entry.defs
  assign_offsets.simps replicate_numeral

lemma read_folders_numeral:
  "read_folders c dir_offset (numeral k) = read_folders c dir_offset (Suc (pred_numeral k))"
  by (simp add: numeral_eq_Suc)

text \<open>Reading back what \<open>pack_files\<close> writes.\<close>

lemma pack_u32_le32: "n < 4294967296 \<Longrightarrow> pack_u32 n = Inr (le32 n)"
  by (simp add: pack_u32_def le32_def)

lemma unpack_u32_le32: "n < 4294967296 \<Longrightarrow> unpack_u32 (le32 n) = Inr n"
  unfolding le32_def by (rule unpack_pack_u32)

lemma length_le32: "length (le32 n) = 4"
  by (simp add: le32_def)

lemma encode_cp932_ascii:
  "\<forall>c \<in> set s. is_ascii c \<Longrightarrow> encode_cp932 cp932 s = Inr (map byte_of_char s)"
  by (induction s) simp_all

lemma is_ascii_nul: "is_ascii (CHR 0x00)"
  by (simp add: is_ascii_def)

lemma ljust_nul_ascii: "\<forall>c \<in> set s. is_ascii c \<Longrightarrow> \<forall>c \<in> set (ljust_nul s n). is_ascii c"
  by (auto simp: ljust_nul_def is_ascii_nul)

lemma length_ljust_nul: "length s \<le> n \<Longrightarrow> length (ljust_nul s n) = n"
  by (simp add: ljust_nul_def)

lemma length_index_record: "name_ok (pk_name p) \<Longrightarrow> length (index_record p) = 0x18"
  by (simp add: index_record_def name_ok_def length_ljust_nul length_le32)

lemma write_index_records:
  "\<forall>p \<in> set ps. name_ok (pk_name p) \<and> pk_offset p < 4294967296 \<and> pk_size p < 4294967296
   \<Longrightarrow> write_index cp932 ps = Inr (concat (map index_record ps))"
proof (induction ps)
  case Nil
  show ?case by simp
next
  case (Cons p ps)
  then have "\<forall>c \<in> set (ljust_nul (pk_name p) 0x10). is_ascii c"
    by (intro ljust_nul_ascii) (simp add: name_ok_def)
  then have "encode_cp932 cp932 (ljust_nul (pk_name p) 0x10)
             = Inr (map byte_of_char (ljust_nul (pk_name p) 0x10))"
    by (rule encode_cp932_ascii)
  with Cons show ?case
    by (simp add: ebind_def pack_u32_le32 index_record_def)
qed

lemma char_of_byte_of_char: "char_of_byte (byte_of_char c) = c"
proof -
  have "(of_char c :: nat) < 256" by (rule nat_of_char_less_256)
  then have "unat (of_nat (of_char c) :: byte) = of_char c"
    by (simp add: unat_of_nat)
  then show ?thesis by (simp add: char_of_byte_def byte_of_char_def)
qed

lemma byte_of_char_ascii: "is_ascii c \<Longrightarrow> byte_of_char c < 0x80"
proof -
  assume "is_ascii c"
  then have "(of_char c :: nat) < 128" by (simp add: is_ascii_def)
  then show ?thesis
    by (simp add: byte_of_char_def word_less_nat_alt unat_of_nat)
qed

lemma decode_ascii_bytes:
  "\<forall>c \<in> set s. is_ascii c \<Longrightarrow> decode_ascii (map byte_of_char s) = Inr s"
  by (simp add: decode_ascii_def byte_of_char_ascii char_of_byte_of_char comp_def)

lemma rstrip_nul_ljust: "s \<noteq> [] \<Longrightarrow> last s \<noteq> CHR 0x00 \<Longrightarrow> rstrip_nul (ljust_nul s n) = s"
proof -
  assume a: "s \<noteq> []" "last s \<noteq> CHR 0x00"
  have "dropWhile (\<lambda>c. c = CHR 0x00) (replicate k (CHR 0x00) @ rev s) = rev s" for k
    using a by (induction k) (simp_all add: hd_rev dropWhile_eq_self_iff)
  then show ?thesis by (simp add: rstrip_nul_def ljust_nul_def)
qed

lemma read_bytes_at: "read_bytes (pre @ xs @ post) (length pre) (length xs) = xs"
  by (simp add: read_bytes_def py_slice_def)

lemma read_bytes_at':
  "length pre = off \<Longrightarrow> length xs = n \<Longrightarrow> read_bytes (pre @ xs @ post) off n = xs"
  using read_bytes_at by blast

lemma read_record_name:
  assumes "name_ok (pk_name p)"
  shows "read_string (pre @ index_record p @ post) (length pre) 0x10 = Inr (pk_name p)"
proof -
  let ?nf = "map byte_of_char (ljust_nul (pk_name p) 0x10)"
  have l: "length ?nf = 0x10" using assms by (simp add: name_ok_def length_ljust_nul)
  have "pre @ index_record p @ post = pre @ ?nf @ (le32 (pk_offset p) @ le32 (pk_size p) @ post)"
    by (simp add: index_record_def)
  then have "read_bytes (pre @ index_record p @ post) (length pre) 0x10 = ?nf"
    using read_bytes_at' [OF refl l] by simp
  moreover have "decode_ascii ?nf = Inr (ljust_nul (pk_name p) 0x10)"
    using assms by (intro decode_ascii_bytes ljust_nul_ascii) (simp add: name_ok_def)
  moreover have "rstrip_nul (ljust_nul (pk_name p) 0x10) = pk_name p"
    using assms by (intro rstrip_nul_ljust) (simp_all add: name_ok_def)
  ultimately show ?thesis by (simp add: read_string_def ebind_def)
qed

lemma read_record_offset:
  assumes "name_ok (pk_name p)" "pk_offset p < 4294967296"
  shows "read_uint32 (pre @ index_record p @ post) (length pre + 0x10) = Inr (pk_offset p)"
proof -
  let ?nf = "map byte_of_char (ljust_nul (pk_name p) 0x10)"
  have l: "length (pre @ ?nf) = length pre + 0x10"
    using assms by (simp add: name_ok_def length_ljust_nul)
  have "pre @ index_record p @ post = (pre @ ?nf) @ le32 (pk_offset p) @ (le32 (pk_size p) @ post)"
    by (simp add: index_record_def)
  then have "read_bytes (pre @ index_record p @ post) (length pre + 0x10) 4 = le32 (pk_offset p)"
    using read_bytes_at' [OF l length_le32] by simp
  then show ?thesis using assms(2) by (simp add: read_uint32_def unpack_u32_le32)
qed

lemma read_record_size:
  assumes "name_ok (pk_name p)" "pk_size p < 4294967296"
  shows "read_uint32 (pre @ index_record p @ post) (length pre + 0x14) = Inr (pk_size p)"
proof -
  let ?nf = "map byte_of_char (ljust_nul (pk_name p) 0x10)"
  have l: "length (pre @ ?nf @ le32 (pk_offset p)) = length pre + 0x14"
    using assms by (simp add: name_ok_def length_ljust_nul length_le32)
  have "pre @ index_record p @ post = (pre @ ?nf @ le32 (pk_offset p)) @ le32 (pk_size p) @ post"
    by (simp add: index_record_def)
  then have "read_bytes (pre @ index_record p @ post) (length pre + 0x14) 4 = le32 (pk_size p)"
    using read_bytes_at' [OF l length_le32] by simp
  then show ?thesis using assms(2) by (simp add: read_uint32_def unpack_u32_le32)
qed

lemma read_uint32_in_range:
  assumes "off + 4 \<le> length c"
  shows "\<exists>v. read_uint32 c off = Inr v"
proof -
  have "length (read_bytes c off 4) = 4"
    using assms by (simp add: read_bytes_def py_slice_def)
  then obtain b0 b1 b2 b3 where "read_bytes c off 4 = [b0, b1, b2, b3]"
    by (auto simp: length_Suc_conv eval_nat_numeral)
  then show ?thesis by (simp add: read_uint32_def unpack_u32_def)
qed

lemma entry_type_for_ok:
  assumes "m \<or> off + 4 \<le> length c"
  shows "\<exists>t. entry_type_for m c off = Inr t"
proof (cases m)
  case True
  then show ?thesis by (simp add: entry_type_for_def)
next
  case False
  with assms obtain v where "read_uint32 c off = Inr v"
    using read_uint32_in_range by blast
  with False show ?thesis
    by (simp add: entry_type_for_def detect_file_type_def ebind_def Let_def)
qed

lemma os_path_join_empty: "os_path_join [] b = b"
  by (simp add: os_path_join_def)

lemma advance_folder_idle:
  "i < next_folder \<Longrightarrow>
   advance_folder folders count i (next_folder, folder, current_folder)
     = Inr (next_folder, folder, current_folder)"
  by (subst advance_folder.simps) simp

lemma try_open_loop_reads_index:
  assumes "\<forall>p \<in> set ps. name_ok (pk_name p) \<and> pk_offset p < 4294967296
             \<and> pk_size p < 4294967296 \<and> pk_offset p + pk_size p \<le> length c
             \<and> (m \<or> pk_offset p + 4 \<le> length c)"
  shows "c = pre @ concat (map index_record ps) @ post \<Longrightarrow> count = int i + int (length ps)
    \<Longrightarrow> \<exists>es. try_open_loop c count None m i ((count, 0, []), length pre, dir)
               = Inr (Some (dir @ es))
             \<and> list_all2 same_fields es ps"
  using assms
proof (induction ps arbitrary: pre i dir)
  case Nil
  then show ?case by (subst try_open_loop.simps) simp
next
  case (Cons p ps)
  from Cons.prems(3) have ok: "name_ok (pk_name p)" "pk_offset p < 4294967296"
    "pk_size p < 4294967296" "pk_offset p + pk_size p \<le> length c"
    "m \<or> pk_offset p + 4 \<le> length c"
    by simp_all
  have c: "c = pre @ index_record p @ (concat (map index_record ps) @ post)"
    using Cons.prems(1) by simp
  have lt: "int i < count" using Cons.prems(2) by simp
  obtain t where t: "entry_type_for m c (pk_offset p) = Inr t"
    using entry_type_for_ok [OF ok(5)] by blast
  let ?e = "\<lparr>entry_name = pk_name p, entry_offset = pk_offset p, entry_size = pk_size p,
              entry_type = t\<rparr>"
  have c': "c = (pre @ index_record p) @ concat (map index_record ps) @ post"
    using c by simp
  have cnt: "count = int (i + 1) + int (length ps)" using Cons.prems(2) by simp
  from Cons.IH [OF c' cnt, of "dir @ [?e]"] Cons.prems(3)
  obtain es where es:
    "try_open_loop c count None m (i + 1) ((count, 0, []), length (pre @ index_record p),
       dir @ [?e]) = Inr (Some ((dir @ [?e]) @ es))"
    "list_all2 same_fields es ps"
    by auto
  have n: "read_string c (length pre) 0x10 = Inr (pk_name p)"
    by (subst c) (rule read_record_name [OF ok(1)])
  have o: "read_uint32 c (length pre + 0x10) = Inr (pk_offset p)"
    by (subst c) (rule read_record_offset [OF ok(1,2)])
  have s: "read_uint32 c (length pre + 0x14) = Inr (pk_size p)"
    by (subst c) (rule read_record_size [OF ok(1,3)])
  have ne: "pk_name p \<noteq> []" using ok(1) by (simp add: name_ok_def)
  have "try_open_loop c count None m i ((count, 0, []), length pre, dir)
        = try_open_loop c count None m (i + 1) ((count, 0, []), length pre + 0x18, dir @ [?e])"
    by (subst try_open_loop.simps)
       (simp add: lt advance_folder_idle ebind_def n o s t ne os_path_join_empty
          check_placement_def ok(4))
  also have "\<dots> = Inr (Some (dir @ ?e # es))"
    using es(1) by (simp add: length_index_record [OF ok(1)])
  finally have r: "try_open_loop c count None m i ((count, 0, []), length pre, dir)
                   = Inr (Some (dir @ ?e # es))" .
  have sf: "same_fields ?e p" by (simp add: same_fields_def)
  show ?case
    using r es(2) sf by (intro exI [of _ "?e # es"]) simp
qed

lemma assign_offsets_Cons:
  "assign_offsets d (e # es) =
     (pack_entry.extend e \<lparr>pk_offset = d\<rparr> # fst (assign_offsets (d + pk_size e) es),
      snd (assign_offsets (d + pk_size e) es))"
  by (simp add: split_def Let_def)

lemma pk_extend [simp]:
  "pk_name (pack_entry.extend e \<lparr>pk_offset = d\<rparr>) = pk_name e"
  "pk_size (pack_entry.extend e \<lparr>pk_offset = d\<rparr>) = pk_size e"
  "pk_data (pack_entry.extend e \<lparr>pk_offset = d\<rparr>) = pk_data e"
  "pk_offset (pack_entry.extend e \<lparr>pk_offset = d\<rparr>) = d"
  by (simp_all add: pack_entry.defs)

declare assign_offsets.simps(2) [simp del]

lemma assign_offsets_fields:
  "map pk_name (fst (assign_offsets d es)) = map pk_name es
   \<and> map pk_size (fst (assign_offsets d es)) = map pk_size es
   \<and> map pk_data (fst (assign_offsets d es)) = map pk_data es
   \<and> length (fst (assign_offsets d es)) = length es
   \<and> snd (assign_offsets d es) = d + sum_list (map pk_size es)"
  by (induction es arbitrary: d) (simp_all add: assign_offsets_Cons)

lemma assign_offsets_range:
  "p \<in> set (fst (assign_offsets d es))
   \<Longrightarrow> d \<le> pk_offset p \<and> pk_offset p + pk_size p \<le> snd (assign_offsets d es)"
proof (induction es arbitrary: d)
  case Nil
  then show ?case by simp
next
  case (Cons e es)
  from Cons.prems consider
    "p = pack_entry.extend e \<lparr>pk_offset = d\<rparr>"
    | "p \<in> set (fst (assign_offsets (d + pk_size e) es))"
    by (auto simp: assign_offsets_Cons)
  then show ?case
  proof cases
    case 1
    then show ?thesis
      using assign_offsets_fields [of "d + pk_size e" es]
      by (simp add: assign_offsets_Cons)
  next
    case 2
    from Cons.IH [OF 2] show ?thesis by (simp add: assign_offsets_Cons)
  qed
qed

lemma assign_offsets_tail_room:
  "es \<noteq> [] \<Longrightarrow> 4 \<le> pk_size (last es) \<Longrightarrow> p \<in> set (fst (assign_offsets d es))
   \<Longrightarrow> pk_offset p + 4 \<le> snd (assign_offsets d es)"
proof (induction es arbitrary: d)
  case Nil
  then show ?case by simp
next
  case (Cons e es)
  show ?case
  proof (cases "es = []")
    case True
    with Cons.prems show ?thesis by (simp add: assign_offsets_Cons)
  next
    case False
    from Cons.prems(3) consider
      "p = pack_entry.extend e \<lparr>pk_offset = d\<rparr>"
      | "p \<in> set (fst (assign_offsets (d + pk_size e) es))"
      by (auto simp: assign_offsets_Cons)
    then show ?thesis
    proof cases
      case 1
      have "pk_size (last es) \<in> set (map pk_size es)" using False by simp
      then have "pk_size (last es) \<le> sum_list (map pk_size es)"
        by (rule member_le_sum_list) simp
      then have "4 \<le> sum_list (map pk_size es)"
        using False Cons.prems(2) by simp
      then show ?thesis
        using 1 assign_offsets_fields [of "d + pk_size e" es]
        by (simp add: assign_offsets_Cons)
    next
      case 2
      from Cons.IH [OF False _ 2] Cons.prems(2) False show ?thesis
        by (simp add: assign_offsets_Cons)
    qed
  qed
qed

lemma assign_offsets_payload:
  assumes "\<forall>e \<in> set es. pk_size e = length (pk_data e)"
  shows "length pre = d \<Longrightarrow> p \<in> set (fst (assign_offsets d es))
    \<Longrightarrow> py_slice (pre @ concat (map pk_data es) @ post) (pk_offset p)
          (pk_offset p + pk_size p) = pk_data p"
  using assms
proof (induction es arbitrary: d pre)
  case Nil
  then show ?case by simp
next
  case (Cons e es)
  from Cons.prems(2) consider
    "p = pack_entry.extend e \<lparr>pk_offset = d\<rparr>"
    | "p \<in> set (fst (assign_offsets (d + pk_size e) es))"
    by (auto simp: assign_offsets_Cons)
  then show ?case
  proof cases
    case 1
    then show ?thesis
      using Cons.prems(1,3) by (simp add: py_slice_def)
  next
    case 2
    have "py_slice ((pre @ pk_data e) @ concat (map pk_data es) @ post) (pk_offset p)
            (pk_offset p + pk_size p) = pk_data p"
      using Cons.prems(1,3) by (intro Cons.IH [OF _ 2]) simp_all
    then show ?thesis by simp
  qed
qed

lemma length_concat_records:
  "\<forall>p \<in> set ps. name_ok (pk_name p) \<Longrightarrow> length (concat (map index_record ps)) = 0x18 * length ps"
  by (induction ps) (simp_all add: length_index_record)

lemma unpack_i32_le32: "n < 2147483648 \<Longrightarrow> unpack_i32 (le32 n) = Inr (int n)"
  by (simp add: unpack_i32_def unpack_u32_le32)

lemma collect_entries_facts:
  "length (collect_entries files) = length files
   \<and> map pk_data (collect_entries files) = map snd files
   \<and> map pk_size (collect_entries files) = map (\<lambda>(p, d). length d) files
   \<and> (\<forall>e \<in> set (collect_entries files). pk_size e = length (pk_data e))"
  by (auto simp: collect_entries_def split_def)

text \<open>Claim C3 says that packing any directory and resolving the archive succeeds. An empty
  directory gives an archive with entry count 0, which \<open>try_open\<close> rejects; a directory
  with a single file of 3 bytes gives an archive on which \<open>try_open\<close> raises
  \<open>struct.error\<close>, reading the signature of the entry past the end of the file.\<close>

theorem pack_then_open_fails:
  "pack_files (\<lambda>c. None) [] = Inr [0x4D, 0x41, 0x49, 0x0A, 16, 0, 0, 0, 0, 0, 0, 0, 0, 1, 0, 0]
   \<and> try_open \<lparr>path = ''x.arc'',
         content = [0x4D, 0x41, 0x49, 0x0A, 16, 0, 0, 0, 0, 0, 0, 0, 0, 1, 0, 0]\<rparr> = Inr None
   \<and> pack_files (\<lambda>c. None) [(''a.txt'', [1, 2, 3])] =
         Inr [0x4D, 0x41, 0x49, 0x0A, 43, 0, 0, 0, 1, 0, 0, 0, 0, 1, 0, 0,
              97, 0, 0, 0, 0, 0, 0, 0, 0, 0, 0, 0, 0, 0, 0, 0, 40, 0, 0, 0, 3, 0, 0, 0, 1, 2, 3]
   \<and> try_open \<lparr>path = ''x.arc'',
         content = [0x4D, 0x41, 0x49, 0x0A, 43, 0, 0, 0, 1, 0, 0, 0, 0, 1, 0, 0,
              97, 0, 0, 0, 0, 0, 0, 0, 0, 0, 0, 0, 0, 0, 0, 0, 40, 0, 0, 0, 3, 0, 0, 0, 1, 2, 3]\<rparr>
       = Inl StructError"
  by (simp add: pack_eval arc_eval)

text \<open>Claim C3, amended: for a non-empty list of at most 0xFFFFF files whose stripped
  names are non-empty ASCII names of at most 16 characters not ending in NUL, with a total
  archive size below \<open>2^32\<close>, and with a last file of at least 4 bytes unless the archive is
  named \<open>mask.arc\<close>, \<open>pack_files\<close> followed by \<open>try_open\<close> succeeds and yields one entry
  per file, named by the stripped relative path, whose byte range holds the file's
  bytes.\<close>

theorem pack_then_open:
  assumes ne: "files \<noteq> []" and cnt: "length files \<le> 0xfffff"
    and names: "\<forall>e \<in> set (collect_entries files). name_ok (pk_name e)"
    and total: "0x10 + length files * 0x18 + sum_list (map (\<lambda>(p, d). length d) files) < 2 ^ 32"
    and probe: "is_mask_arc archive_name \<or> 4 \<le> length (snd (last files))"
  shows "\<exists>bytes es. pack_files cp932 files = Inr bytes
      \<and> try_open \<lparr>path = archive_name, content = bytes\<rparr>
          = Inr (Some \<lparr>arc_file = archive_name, arc_entries = es\<rparr>)
      \<and> length es = length files
      \<and> (\<forall>k < length files.
            entry_name (es ! k) = pk_name (collect_entries files ! k)
            \<and> py_slice bytes (entry_offset (es ! k)) (entry_offset (es ! k) + entry_size (es ! k))
                = snd (files ! k))"
proof -
  define es0 where "es0 = collect_entries files"
  define N where "N = length files"
  define ps where "ps = fst (assign_offsets (0x10 + N * 0x18) es0)"
  define T where "T = snd (assign_offsets (0x10 + N * 0x18) es0)"
  define m where "m = is_mask_arc archive_name"
  note cf = collect_entries_facts [of files, folded es0_def N_def]
  have len0: "length es0 = N" using cf by simp
  have sizes0: "\<forall>e \<in> set es0. pk_size e = length (pk_data e)" using cf by simp
  note af = assign_offsets_fields [of "0x10 + N * 0x18" es0, folded ps_def T_def]
  have T: "T = 0x10 + N * 0x18 + sum_list (map pk_size es0)" using af by simp
  have Tlt: "T < 4294967296" using total cf T by (simp add: N_def)
  have Nlt: "N \<le> 1048575" "0 < N" using cnt ne by (simp_all add: N_def)
  have lps: "length ps = N" using af len0 by simp
  have nth_ps: "pk_name (ps ! k) = pk_name (es0 ! k) \<and> pk_size (ps ! k) = pk_size (es0 ! k)
                \<and> pk_data (ps ! k) = pk_data (es0 ! k)" if "k < N" for k
  proof -
    have "map pk_name ps ! k = map pk_name es0 ! k" "map pk_size ps ! k = map pk_size es0 ! k"
      "map pk_data ps ! k = map pk_data es0 ! k"
      using af by simp_all
    then show ?thesis using that lps len0 by simp
  qed
  have names_ps: "name_ok (pk_name p)" if "p \<in> set ps" for p
  proof -
    from that obtain k where k: "k < N" "p = ps ! k"
      using lps by (metis in_set_conv_nth)
    then have "pk_name p = pk_name (es0 ! k)" using nth_ps by simp
    moreover have "es0 ! k \<in> set es0" using k len0 by simp
    ultimately show ?thesis using names by (simp add: es0_def)
  qed
  have range_ps: "0x10 + N * 0x18 \<le> pk_offset p \<and> pk_offset p + pk_size p \<le> T"
    if "p \<in> set ps" for p
    using assign_offsets_range [of p "0x10 + N * 0x18" es0] that by (simp add: ps_def T_def)
  have probe_ps: "m \<or> pk_offset p + 4 \<le> T" if "p \<in> set ps" for p
  proof (cases m)
    case True
    then show ?thesis by simp
  next
    case False
    with probe have "4 \<le> length (snd (last files))" by (simp add: m_def)
    moreover have "es0 \<noteq> []" using ne by (simp add: es0_def collect_entries_def)
    moreover have "pk_size (last es0) = length (snd (last files))"
      using ne by (simp add: es0_def collect_entries_def last_map split_def)
    ultimately show ?thesis
      using assign_offsets_tail_room [of es0 p "0x10 + N * 0x18"] that
      by (simp add: ps_def T_def)
  qed
  have each: "\<forall>p \<in> set ps. name_ok (pk_name p) \<and> pk_offset p < 4294967296
             \<and> pk_size p < 4294967296 \<and> pk_offset p + pk_size p \<le> T
             \<and> (m \<or> pk_offset p + 4 \<le> T)"
    using names_ps range_ps probe_ps Tlt by fastforce
  define hdr where "hdr = le32 0x0a49414d @ le32 T @ le32 N @ [0, 1, 0, 0]"
  define bytes where "bytes = hdr @ concat (map index_record ps) @ concat (map pk_data ps)"
  have wi: "write_index cp932 ps = Inr (concat (map index_record ps))"
    using each by (intro write_index_records) simp
  have pack: "pack_files cp932 files = Inr bytes"
    unfolding pack_files_def
    using wi Tlt Nlt lps cf
    by (simp add: Let_def split_def es0_def [symmetric] N_def [symmetric] ps_def [symmetric]
        T_def [symmetric] ebind_def pack_u32_le32 bytes_def hdr_def)
  have lenb: "length bytes = T"
  proof -
    have "map pk_data ps = map pk_data es0" using af by simp
    then have "length (concat (map pk_data ps)) = sum_list (map length (map pk_data es0))"
      by (simp only: length_concat)
    also have "\<dots> = sum_list (map pk_size es0)"
      using sizes0 by (simp add: comp_def cong: map_cong)
    finally have "length (concat (map pk_data ps)) = sum_list (map pk_size es0)" .
    then show ?thesis
      using each lps by (simp add: bytes_def hdr_def length_le32 length_concat_records T)
  qed
  let ?sig = "le32 0x0a49414d"
  let ?idx = "concat (map index_record ps)"
  let ?pay = "concat (map pk_data ps)"
  have b4: "bytes = ?sig @ le32 T @ (le32 N @ [0, 1, 0, 0] @ ?idx @ ?pay)"
    by (simp add: bytes_def hdr_def)
  have b8: "bytes = (?sig @ le32 T) @ le32 N @ ([0, 1, 0, 0] @ ?idx @ ?pay)"
    by (simp add: bytes_def hdr_def)
  have b13: "bytes = (?sig @ le32 T @ le32 N @ [0]) @ [1] @ ([0, 0] @ ?idx @ ?pay)"
    by (simp add: bytes_def hdr_def)
  have b14: "bytes = (?sig @ le32 T @ le32 N @ [0, 1]) @ [0, 0] @ (?idx @ ?pay)"
    by (simp add: bytes_def hdr_def)
  have r4: "read_uint32 bytes 4 = Inr T"
    using read_bytes_at' [of ?sig 4 "le32 T" 4] Tlt
    by (subst b4) (simp add: read_uint32_def length_le32 unpack_u32_le32)
  have r8: "read_int32 bytes 8 = Inr (int N)"
    using read_bytes_at' [of "?sig @ le32 T" 8 "le32 N" 4] Nlt
    by (subst b8) (simp add: read_int32_def length_le32 unpack_i32_le32)
  have r13: "read_byte bytes 0x0d = Inr 1"
    using read_bytes_at' [of "?sig @ le32 T @ le32 N @ [0]" 13 "[1]" 1]
    by (subst b13) (simp add: read_byte_def length_le32 unpack_u8_def)
  have r14: "read_uint16 bytes 0x0e = Inr 0"
    using read_bytes_at' [of "?sig @ le32 T @ le32 N @ [0, 1]" 14 "[0, 0]" 2]
    by (subst b14) (simp add: read_uint16_def length_le32 unpack_u16_def)
  have lhdr: "length hdr = 0x10" by (simp add: hdr_def length_le32)
  have fits: "\<not> int N * 0x18 + int 0 * 8 > int (length bytes) - int 0x10"
    using T lenb by simp
  have each': "\<forall>p \<in> set ps. name_ok (pk_name p) \<and> pk_offset p < 4294967296
             \<and> pk_size p < 4294967296 \<and> pk_offset p + pk_size p \<le> length bytes
             \<and> (m \<or> pk_offset p + 4 \<le> length bytes)"
    using each lenb by simp
  from try_open_loop_reads_index [OF each', of hdr ?pay "int N" 0 "[]"] lps
  obtain es where es:
    "try_open_loop bytes (int N) None m 0 ((int N, 0, []), length hdr, []) = Inr (Some es)"
    "list_all2 same_fields es ps"
    by (auto simp: bytes_def)
  have opened: "try_open \<lparr>path = archive_name, content = bytes\<rparr>
          = Inr (Some \<lparr>arc_file = archive_name, arc_entries = es\<rparr>)"
    unfolding try_open_def
    using es(1) Nlt fits
    by (simp add: Let_def ebind_def r4 r8 r13 r14 lenb m_def lhdr)
  have les: "length es = N" using es(2) lps by (simp add: list_all2_lengthD)
  have final: "entry_name (es ! k) = pk_name (collect_entries files ! k)
            \<and> py_slice bytes (entry_offset (es ! k)) (entry_offset (es ! k) + entry_size (es ! k))
                = snd (files ! k)" if k: "k < N" for k
  proof -
    have sf: "same_fields (es ! k) (ps ! k)"
      using es(2) k lps by (simp add: list_all2_nthD2)
    have mem: "ps ! k \<in> set ps" using k lps by simp
    have "py_slice ((hdr @ ?idx) @ concat (map pk_data es0) @ [])
            (pk_offset (ps ! k)) (pk_offset (ps ! k) + pk_size (ps ! k)) = pk_data (ps ! k)"
      using mem each lps
      by (intro assign_offsets_payload [OF sizes0, where d = "0x10 + N * 0x18"])
         (simp_all add: lhdr length_concat_records ps_def)
    moreover have "map pk_data ps = map pk_data es0" using af by simp
    ultimately have "py_slice bytes (pk_offset (ps ! k)) (pk_offset (ps ! k) + pk_size (ps ! k))
                     = pk_data (ps ! k)"
      by (simp add: bytes_def)
    moreover have "pk_data (ps ! k) = snd (files ! k)"
    proof -
      have "map pk_data es0 ! k = map snd files ! k" using cf by simp
      then show ?thesis using nth_ps [OF k] k len0 by (simp add: N_def)
    qed
    ultimately show ?thesis
      using sf nth_ps [OF k] by (simp add: same_fields_def es0_def)
  qed
  show ?thesis
    using pack opened les final by (auto simp: N_def)
qed

theorem pack_then_open_witness:
  "[(''a.txt'', [1, 2, 3, 4, 5 :: byte]), (''sub/bcd.bin'', [0x43, 0x4D, 3, 4])] \<noteq> []
   \<and> map pk_name (collect_entries
         [(''a.txt'', [1, 2, 3, 4, 5]), (''sub/bcd.bin'', [0x43, 0x4D, 3, 4])]) = [''a'', ''sub/bcd'']
   \<and> name_ok ''a'' \<and> name_ok ''sub/bcd''
   \<and> 4 \<le> length (snd (last [(''a.txt'', [1, 2, 3, 4, 5 :: byte]), (''sub/bcd.bin'', [0x43, 0x4D, 3, 4])]))
   \<and> (\<exists>bytes es.
         pack_files (\<lambda>c. None) [(''a.txt'', [1, 2, 3, 4, 5]), (''sub/bcd.bin'', [0x43, 0x4D, 3, 4])]
           = Inr bytes
       \<and> try_open \<lparr>path = ''x.arc'', content = bytes\<rparr>
           = Inr (Some \<lparr>arc_file = ''x.arc'', arc_entries = es\<rparr>)
       \<and> length es = 2
       \<and> entry_name (es ! 0) = ''a'' \<and> entry_name (es ! 1) = ''sub/bcd''
       \<and> py_slice bytes (entry_offset (es ! 0)) (entry_offset (es ! 0) + entry_size (es ! 0))
           = [1, 2, 3, 4, 5]
       \<and> py_slice bytes (entry_offset (es ! 1)) (entry_offset (es ! 1) + entry_size (es ! 1))
           = [0x43, 0x4D, 3, 4])"
proof -
  let ?files = "[(''a.txt'', [1, 2, 3, 4, 5 :: byte]), (''sub/bcd.bin'', [0x43, 0x4D, 3, 4])]"
  have c: "collect_entries ?files =
     [\<lparr>pk_name = ''a'', pk_size = 5, pk_data = [1, 2, 3, 4, 5]\<rparr>,
      \<lparr>pk_name = ''sub/bcd'', pk_size = 4, pk_data = [0x43, 0x4D, 3, 4]\<rparr>]"
    by (simp add: collect_entries_def splitext_root_def basename_def)
  have n: "\<forall>e \<in> set (collect_entries ?files). name_ok (pk_name e)"
    by (simp add: c name_ok_def is_ascii_def)
  have h: "?files \<noteq> []" "length ?files \<le> 0xfffff"
    "0x10 + length ?files * 0x18 + sum_list (map (\<lambda>(p, d). length d) ?files) < 2 ^ 32"
    "is_mask_arc ''x.arc'' \<or> 4 \<le> length (snd (last ?files))"
    by simp_all
  from pack_then_open [OF h(1,2) n h(3,4), of "\<lambda>c. None"]
  obtain bytes es where r: "pack_files (\<lambda>c. None) ?files = Inr bytes"
    "try_open \<lparr>path = ''x.arc'', content = bytes\<rparr>
       = Inr (Some \<lparr>arc_file = ''x.arc'', arc_entries = es\<rparr>)"
    "length es = length ?files"
    "\<forall>k < length ?files. entry_name (es ! k) = pk_name (collect_entries ?files ! k)
        \<and> py_slice bytes (entry_offset (es ! k)) (entry_offset (es ! k) + entry_size (es ! k))
            = snd (?files ! k)"
    by blast
  from r(4) have "entry_name (es ! 0) = ''a''"
    "py_slice bytes (entry_offset (es ! 0)) (entry_offset (es ! 0) + entry_size (es ! 0))
       = [1, 2, 3, 4, 5]"
    by (simp_all add: c)
  moreover from r(4) have "entry_name (es ! 1) = ''sub/bcd''"
    "py_slice bytes (entry_offset (es ! 1)) (entry_offset (es ! 1) + entry_size (es ! 1))
       = [0x43, 0x4D, 3, 4]"
    by (simp_all add: c)
  moreover have "name_ok ''a''" "name_ok ''sub/bcd''"
    by (simp_all add: name_ok_def is_ascii_def)
  ultimately show ?thesis using r(1,2,3) c by auto
qed

text \<open>The name field written for an ASCII name: padded to 16 bytes, never cut.\<close>

lemma name_field_length:
  assumes "\<forall>c \<in> set n. is_ascii c"
  shows "\<exists>bs. encode_cp932 cp932 (ljust_nul n 0x10) = Inr bs \<and> length bs = max 0x10 (length n)"
proof -
  have "encode_cp932 cp932 (ljust_nul n 0x10) = Inr (map byte_of_char (ljust_nul n 0x10))"
    using assms by (intro encode_cp932_ascii ljust_nul_ascii)
  moreover have "length (map byte_of_char (ljust_nul n 0x10)) = max 0x10 (length n)"
    by (simp add: ljust_nul_def)
  ultimately show ?thesis by blast
qed

text \<open>Claim C4 says that a name longer than 16 bytes is cut to 16 bytes, so that every index
  record has 0x18 bytes. \<open>ljust\<close> pads but never cuts: for a file whose stripped name has 17
  characters the name field has 17 bytes and the record 25, while the size field of the
  header (44) and the entry's offset (40) are computed for a record of 0x18 bytes; the
  archive written has 45 bytes.\<close>

theorem pack_files_name_not_truncated:
  "pack_files cp932 [(''abcdefghijklmnopq.txt'', [1, 2, 3, 4])] =
     Inr ([0x4D, 0x41, 0x49, 0x0A, 44, 0, 0, 0, 1, 0, 0, 0, 0, 1, 0, 0]
          @ [97, 98, 99, 100, 101, 102, 103, 104, 105, 106, 107, 108, 109, 110, 111, 112, 113]
          @ [40, 0, 0, 0, 4, 0, 0, 0]
          @ [1, 2, 3, 4])"
  by (simp add: pack_eval)

text \<open>Claim C5 says that an entry with \<open>offset + size\<close> beyond the end of the file makes
  \<open>try_open\<close> return the invalid result. \<open>try_open\<close> evaluates \<open>detect_file_type\<close> at the
  entry's offset before it calls \<open>check_placement\<close>: for an entry at offset 40 with size 1 in
  a file of 40 bytes the read of the signature raises \<open>struct.error\<close>, where the same file
  with the entry at offset 36 and size 5 is rejected with \<open>None\<close>.\<close>

theorem try_open_probe_before_placement:
  "try_open \<lparr>path = ''x.arc'', content = [0x4D, 0x41, 0x49, 0x0A, 40, 0, 0, 0, 1, 0, 0, 0,
      0, 1, 0, 0, 97, 0, 0, 0, 0, 0, 0, 0, 0, 0, 0, 0, 0, 0, 0, 0, 40, 0, 0, 0, 1, 0, 0, 0]\<rparr>
     = Inl StructError
   \<and> try_open \<lparr>path = ''x.arc'', content = [0x4D, 0x41, 0x49, 0x0A, 40, 0, 0, 0, 1, 0, 0, 0,
      0, 1, 0, 0, 97, 0, 0, 0, 0, 0, 0, 0, 0, 0, 0, 0, 0, 0, 0, 0, 36, 0, 0, 0, 5, 0, 0, 0]\<rparr>
     = Inr None"
  by (simp add: arc_eval)

text \<open>What \<open>try_open\<close> guarantees on every path: a returned index holds one entry per
  flat record, with the offset and size stored there, each inside the file. So no index,
  partial or full, is returned for an archive with a misplaced flat entry.\<close>

lemma try_open_loop_entries:
  "try_open_loop c count folders m i (cursor, index_offset, dir) = Inr (Some es)
   \<Longrightarrow> int i \<le> count
   \<Longrightarrow> \<exists>new. es = dir @ new \<and> int (length new) = count - int i
         \<and> (\<forall>k < length new.
               read_uint32 c (index_offset + 0x18 * k + 0x10) = Inr (entry_offset (new ! k))
             \<and> read_uint32 c (index_offset + 0x18 * k + 0x14) = Inr (entry_size (new ! k))
             \<and> entry_offset (new ! k) + entry_size (new ! k) \<le> length c)"
proof (induction c count folders m i "(cursor, index_offset, dir)"
    arbitrary: cursor index_offset dir rule: try_open_loop.induct)
  case (1 c count folders is_mask_arc i cursor index_offset dir)
  show ?case
  proof (cases "int i < count")
    case False
    with "1.prems" have "es = dir" "count = int i"
      by (simp_all add: try_open_loop.simps)
    then show ?thesis by simp
  next
    case True
    from "1.prems"(1) True obtain cursor' name offset size' t where
      a: "advance_folder folders count (int i) cursor = Inr cursor'"
      and n: "read_string c index_offset 0x10 = Inr name" "length name \<noteq> 0"
      and o: "read_uint32 c (index_offset + 0x10) = Inr offset"
      and s: "read_uint32 c (index_offset + 0x14) = Inr size'"
      and t: "entry_type_for is_mask_arc c offset = Inr t"
      and p: "check_placement \<lparr>entry_name = os_path_join (snd (snd cursor')) name,
                   entry_offset = offset, entry_size = size', entry_type = t\<rparr> (length c)"
      and r: "try_open_loop c count folders is_mask_arc (i + 1)
              (cursor', index_offset + 0x18,
               dir @ [\<lparr>entry_name = os_path_join (snd (snd cursor')) name,
                   entry_offset = offset, entry_size = size', entry_type = t\<rparr>])
              = Inr (Some es)"
      by (subst (asm) try_open_loop.simps)
         (auto simp: ebind_def Let_def split: if_splits sum.splits)
    let ?e = "\<lparr>entry_name = os_path_join (snd (snd cursor')) name,
                   entry_offset = offset, entry_size = size', entry_type = t\<rparr>"
    have le: "int (i + 1) \<le> count" using True by simp
    have np: "\<not> \<not> check_placement ?e (length c)" using p by simp
    from "1.hyps" [OF True a n(1) n(2) o s t refl np r le]
    obtain new where new: "es = (dir @ [?e]) @ new" "int (length new) = count - int (i + 1)"
      "\<forall>k < length new.
         read_uint32 c (index_offset + 0x18 + 0x18 * k + 0x10) = Inr (entry_offset (new ! k))
       \<and> read_uint32 c (index_offset + 0x18 + 0x18 * k + 0x14) = Inr (entry_size (new ! k))
       \<and> entry_offset (new ! k) + entry_size (new ! k) \<le> length c"
      by blast
    have "read_uint32 c (index_offset + 0x18 * k + 0x10) = Inr (entry_offset ((?e # new) ! k))
        \<and> read_uint32 c (index_offset + 0x18 * k + 0x14) = Inr (entry_size ((?e # new) ! k))
        \<and> entry_offset ((?e # new) ! k) + entry_size ((?e # new) ! k) \<le> length c"
      if "k < length (?e # new)" for k
    proof (cases k)
      case 0
      then show ?thesis using o s p by (simp add: check_placement_def)
    next
      case (Suc j)
      with that have "j < length new" by simp
      with new(3) Suc show ?thesis by (simp add: add.assoc add.left_commute)
    qed
    then show ?thesis
      using new(1,2) by (intro exI [of _ "?e # new"]) simp
  qed
qed

lemma try_open_rejects_misplaced:
  assumes "read_int32 (content file) 8 = Inr count" and "k < nat count"
    and "read_uint32 (content file) (0x10 + 0x18 * k + 0x10) = Inr offset"
    and "read_uint32 (content file) (0x10 + 0x18 * k + 0x14) = Inr sz"
    and "length (content file) < offset + sz"
  shows "try_open file \<noteq> Inr (Some arc)"
proof
  assume "try_open file = Inr (Some arc)"
  with assms(1) obtain folders next_folder where
    l: "try_open_loop (content file) count folders (is_mask_arc (path file)) 0
         ((next_folder, 0, []), 0x10, []) = Inr (Some (arc_entries arc))"
    and c: "0 < count"
    by (auto simp: try_open_def ebind_def Let_def split: if_splits sum.splits option.splits)
  from try_open_loop_entries [OF l] c
  obtain new where new: "arc_entries arc = new" "int (length new) = count"
    "\<forall>k < length new.
       read_uint32 (content file) (0x10 + 0x18 * k + 0x10) = Inr (entry_offset (new ! k))
     \<and> read_uint32 (content file) (0x10 + 0x18 * k + 0x14) = Inr (entry_size (new ! k))
     \<and> entry_offset (new ! k) + entry_size (new ! k) \<le> length (content file)"
    by auto
  from new(2) assms(2) have "k < length new" by simp
  with new(3) assms(3,4) have "offset + sz \<le> length (content file)" by auto
  with assms(5) show False by simp
qed

text \<open>The entry loop on the directory table of the example.\<close>

lemma try_open_loop_step:
  assumes "try_open_loop c count folders m i (cursor, index_offset, dir) = Inr (Some es)"
    and "int i < count"
  shows "\<exists>cursor' name e.
           advance_folder folders count (int i) cursor = Inr cursor'
         \<and> read_string c index_offset 0x10 = Inr name
         \<and> entry_name e = os_path_join (snd (snd cursor')) name
         \<and> try_open_loop c count folders m (i + 1) (cursor', index_offset + 0x18, dir @ [e])
             = Inr (Some es)"
proof -
  from assms obtain cursor' name offset sz t where
    "advance_folder folders count (int i) cursor = Inr cursor'"
    "read_string c index_offset 0x10 = Inr name"
    "try_open_loop c count folders m (i + 1)
       (cursor', index_offset + 0x18,
        dir @ [\<lparr>entry_name = os_path_join (snd (snd cursor')) name,
                 entry_offset = offset, entry_size = sz, entry_type = t\<rparr>])
      = Inr (Some es)"
    by (subst (asm) try_open_loop.simps)
       (auto simp: ebind_def Let_def split: if_splits sum.splits)
  then show ?thesis
    by (intro exI [of _ cursor'] exI [of _ name]
          exI [of _ "\<lparr>entry_name = os_path_join (snd (snd cursor')) name,
                 entry_offset = offset, entry_size = sz, entry_type = t\<rparr>"]) simp
qed

lemma try_open_loop_done:
  assumes "try_open_loop c count folders m i (cursor, index_offset, dir) = Inr (Some es)"
    and "\<not> int i < count"
  shows "es = dir"
  using assms by (subst (asm) try_open_loop.simps) simp

lemma example_cursor:
  "advance_folder (Some example_folders) 5 0 (0, 0, []) = Inr (3, Suc 0, ''AA'')"
  "advance_folder (Some example_folders) 5 1 (3, Suc 0, ''AA'') = Inr (3, Suc 0, ''AA'')"
  "advance_folder (Some example_folders) 5 2 (3, Suc 0, ''AA'') = Inr (3, Suc 0, ''AA'')"
  "advance_folder (Some example_folders) 5 3 (3, Suc 0, ''AA'') = Inr (5, 2, ''BB'')"
  "advance_folder (Some example_folders) 5 4 (5, 2, ''BB'') = Inr (5, 2, ''BB'')"
  by (simp_all add: advance_folder.simps example_folders_def)

lemma example_loop:
  assumes "try_open_loop c 5 (Some example_folders) m 0 ((0, 0, []), 0x10, []) = Inr (Some es)"
  shows "\<exists>n0 n1 n2 n3 n4.
           read_string c 0x10 0x10 = Inr n0 \<and> read_string c 0x28 0x10 = Inr n1
         \<and> read_string c 0x40 0x10 = Inr n2 \<and> read_string c 0x58 0x10 = Inr n3
         \<and> read_string c 0x70 0x10 = Inr n4
         \<and> map entry_name es = [os_path_join ''AA'' n0, os_path_join ''AA'' n1,
               os_path_join ''AA'' n2, os_path_join ''BB'' n3, os_path_join ''BB'' n4]"
proof -
  from try_open_loop_step [OF assms] obtain n0 e0 where
    s0: "read_string c 0x10 0x10 = Inr n0" "entry_name e0 = os_path_join ''AA'' n0"
    "try_open_loop c 5 (Some example_folders) m (Suc 0) ((3, Suc 0, ''AA''), 0x28, [e0])
       = Inr (Some es)"
    by (auto simp: example_cursor)
  from try_open_loop_step [OF s0(3)] obtain n1 e1 where
    s1: "read_string c 0x28 0x10 = Inr n1" "entry_name e1 = os_path_join ''AA'' n1"
    "try_open_loop c 5 (Some example_folders) m (Suc (Suc 0)) ((3, Suc 0, ''AA''), 0x40, [e0, e1])
       = Inr (Some es)"
    by (auto simp: example_cursor)
  from try_open_loop_step [OF s1(3)] obtain n2 e2 where
    s2: "read_string c 0x40 0x10 = Inr n2" "entry_name e2 = os_path_join ''AA'' n2"
    "try_open_loop c 5 (Some example_folders) m (Suc (Suc (Suc 0)))
       ((3, Suc 0, ''AA''), 0x58, [e0, e1, e2]) = Inr (Some es)"
    by (auto simp: example_cursor)
  from try_open_loop_step [OF s2(3)] obtain n3 e3 where
    s3: "read_string c 0x58 0x10 = Inr n3" "entry_name e3 = os_path_join ''BB'' n3"
    "try_open_loop c 5 (Some example_folders) m (Suc (Suc (Suc (Suc 0))))
       ((5, 2, ''BB''), 0x70, [e0, e1, e2, e3]) = Inr (Some es)"
    by (auto simp: example_cursor)
  from try_open_loop_step [OF s3(3)] obtain n4 e4 where
    s4: "read_string c 0x70 0x10 = Inr n4" "entry_name e4 = os_path_join ''BB'' n4"
    "try_open_loop c 5 (Some example_folders) m (Suc (Suc (Suc (Suc (Suc 0)))))
       ((5, 2, ''BB''), 0x88, [e0, e1, e2, e3, e4]) = Inr (Some es)"
    by (auto simp: example_cursor)
  from try_open_loop_done [OF s4(3)] have "es = [e0, e1, e2, e3, e4]" by simp
  with s0 s1 s2 s3 s4 show ?thesis by simp
qed

lemma os_path_join_cases:
  "os_path_join ''AA'' n = (if take 1 n = ''/'' then n else ''AA/'' @ n)"
  "os_path_join ''BB'' n = (if take 1 n = ''/'' then n else ''BB/'' @ n)"
  by (simp_all add: os_path_join_def)

text \<open>Claim C6 says that entries 0 to 2 receive the path prefix \<open>AA\<close>. In the example
  archive entry 0 has the raw name \<open>/x\<close>, and its resolved name is \<open>/x\<close>:
  \<open>os.path.join\<close> discards the directory before an absolute name.\<close>

theorem directory_prefix_dropped:
  "read_int32 dir_example 8 = Inr 5
   \<and> read_byte dir_example 0x0d = Inr 2
   \<and> read_uint16 dir_example 0x0e = Inr 2
   \<and> read_folders dir_example (0x10 + 5 * 0x18) 2 = Inr example_folders
   \<and> read_string dir_example 0x10 0x10 = Inr ''/x''
   \<and> try_open \<lparr>path = ''x.arc'', content = dir_example\<rparr> =
     Inr (Some \<lparr>arc_file = ''x.arc'', arc_entries =
       [\<lparr>entry_name = ''/x'', entry_offset = 152, entry_size = 4, entry_type = ''.bmp''\<rparr>,
        \<lparr>entry_name = ''AA/b'', entry_offset = 152, entry_size = 4, entry_type = ''.bmp''\<rparr>,
        \<lparr>entry_name = ''AA/c'', entry_offset = 152, entry_size = 4, entry_type = ''.bmp''\<rparr>,
        \<lparr>entry_name = ''BB/d'', entry_offset = 152, entry_size = 4, entry_type = ''.bmp''\<rparr>,
        \<lparr>entry_name = ''BB/e'', entry_offset = 152, entry_size = 4, entry_type = ''.bmp''\<rparr>]\<rparr>)"
  by (simp add: dir_example_def arc_eval read_folders.simps example_folders_def read_folders_numeral)

text \<open>Claim C6, amended: for an archive with 5 flat entries, directory level 2 and the
  directory table \<open>AA\<close> from 0, \<open>BB\<close> from 3, a successful resolution names entries 0 to 2
  \<open>AA/\<close> followed by the raw name and entries 3 and 4 \<open>BB/\<close> followed by the raw name,
  except that a raw name beginning with \<open>/\<close> is kept as it is, without the directory.\<close>

theorem directory_prefixes:
  assumes "try_open file = Inr (Some arc)"
    and "read_int32 (content file) 8 = Inr 5"
    and "read_byte (content file) 0x0d = Inr 2"
    and "read_uint16 (content file) 0x0e = Inr 2"
    and "read_folders (content file) (0x10 + 5 * 0x18) 2 = Inr example_folders"
  shows "\<exists>n0 n1 n2 n3 n4.
           read_string (content file) 0x10 0x10 = Inr n0
         \<and> read_string (content file) 0x28 0x10 = Inr n1
         \<and> read_string (content file) 0x40 0x10 = Inr n2
         \<and> read_string (content file) 0x58 0x10 = Inr n3
         \<and> read_string (content file) 0x70 0x10 = Inr n4
         \<and> map entry_name (arc_entries arc) =
              [if take 1 n0 = ''/'' then n0 else ''AA/'' @ n0,
               if take 1 n1 = ''/'' then n1 else ''AA/'' @ n1,
               if take 1 n2 = ''/'' then n2 else ''AA/'' @ n2,
               if take 1 n3 = ''/'' then n3 else ''BB/'' @ n3,
               if take 1 n4 = ''/'' then n4 else ''BB/'' @ n4]"
proof -
  from assms obtain m where
    "try_open_loop (content file) 5 (Some example_folders) m 0 ((0, 0, []), 0x10, [])
       = Inr (Some (arc_entries arc))"
    by (auto simp: try_open_def ebind_def Let_def example_folders_def
          split: if_splits sum.splits)
  from example_loop [OF this] show ?thesis
    by (simp only: os_path_join_cases)
qed

theorem directory_prefixes_witness:
  "try_open \<lparr>path = ''x.arc'', content = dir_example\<rparr> =
     Inr (Some \<lparr>arc_file = ''x.arc'', arc_entries =
       [\<lparr>entry_name = ''/x'', entry_offset = 152, entry_size = 4, entry_type = ''.bmp''\<rparr>,
        \<lparr>entry_name = ''AA/b'', entry_offset = 152, entry_size = 4, entry_type = ''.bmp''\<rparr>,
        \<lparr>entry_name = ''AA/c'', entry_offset = 152, entry_size = 4, entry_type = ''.bmp''\<rparr>,
        \<lparr>entry_name = ''BB/d'', entry_offset = 152, entry_size = 4, entry_type = ''.bmp''\<rparr>,
        \<lparr>entry_name = ''BB/e'', entry_offset = 152, entry_size = 4, entry_type = ''.bmp''\<rparr>]\<rparr>)
   \<and> read_int32 dir_example 8 = Inr 5
   \<and> read_byte dir_example 0x0d = Inr 2
   \<and> read_uint16 dir_example 0x0e = Inr 2
   \<and> read_folders dir_example (0x10 + 5 * 0x18) 2 = Inr example_folders
   \<and> (\<exists>n0 n1 n2 n3 n4.
           read_string dir_example 0x10 0x10 = Inr n0
         \<and> read_string dir_example 0x28 0x10 = Inr n1
         \<and> read_string dir_example 0x40 0x10 = Inr n2
         \<and> read_string dir_example 0x58 0x10 = Inr n3
         \<and> read_string dir_example 0x70 0x10 = Inr n4
         \<and> [''/x'', ''AA/b'', ''AA/c'', ''BB/d'', ''BB/e''] =
              [if take 1 n0 = ''/'' then n0 else ''AA/'' @ n0,
               if take 1 n1 = ''/'' then n1 else ''AA/'' @ n1,
               if take 1 n2 = ''/'' then n2 else ''AA/'' @ n2,
               if take 1 n3 = ''/'' then n3 else ''BB/'' @ n3,
               if take 1 n4 = ''/'' then n4 else ''BB/'' @ n4])"
proof -
  let ?arc = "\<lparr>arc_file = ''x.arc'', arc_entries =
       [\<lparr>entry_name = ''/x'', entry_offset = 152, entry_size = 4, entry_type = ''.bmp''\<rparr>,
        \<lparr>entry_name = ''AA/b'', entry_offset = 152, entry_size = 4, entry_type = ''.bmp''\<rparr>,
        \<lparr>entry_name = ''AA/c'', entry_offset = 152, entry_size = 4, entry_type = ''.bmp''\<rparr>,
        \<lparr>entry_name = ''BB/d'', entry_offset = 152, entry_size = 4, entry_type = ''.bmp''\<rparr>,
        \<lparr>entry_name = ''BB/e'', entry_offset = 152, entry_size = 4, entry_type = ''.bmp''\<rparr>]\<rparr>"
  have o: "try_open \<lparr>path = ''x.arc'', content = dir_example\<rparr> = Inr (Some ?arc)"
    by (simp add: dir_example_def arc_eval read_folders.simps)
  have h: "read_int32 (content \<lparr>path = ''x.arc'', content = dir_example\<rparr>) 8 = Inr 5"
    "read_byte (content \<lparr>path = ''x.arc'', content = dir_example\<rparr>) 0x0d = Inr 2"
    "read_uint16 (content \<lparr>path = ''x.arc'', content = dir_example\<rparr>) 0x0e = Inr 2"
    "read_folders (content \<lparr>path = ''x.arc'', content = dir_example\<rparr>) (0x10 + 5 * 0x18) 2
       = Inr example_folders"
    by (simp_all add: dir_example_def arc_eval read_folders.simps example_folders_def
        read_folders_numeral)
  from directory_prefixes [OF o h] h o show ?thesis by simp
qed

text \<open>The entry loop under the \<open>mask.arc\<close> override.\<close>

lemma try_open_loop_mask_types:
  "try_open_loop c count folders m i (cursor, index_offset, dir) = Inr (Some es) \<Longrightarrow> m
   \<Longrightarrow> \<forall>e \<in> set dir. entry_type e = ''MSK/MAI''
   \<Longrightarrow> \<forall>e \<in> set es. entry_type e = ''MSK/MAI''"
proof (induction c count folders m i "(cursor, index_offset, dir)"
    arbitrary: cursor index_offset dir rule: try_open_loop.induct)
  case (1 c count folders is_mask_arc i cursor index_offset dir)
  show ?case
  proof (cases "int i < count")
    case False
    with "1.prems" show ?thesis by (simp add: try_open_loop.simps)
  next
    case True
    from "1.prems"(1) True obtain cursor' name offset size' where
      a: "advance_folder folders count (int i) cursor = Inr cursor'"
      and n: "read_string c index_offset 0x10 = Inr name" "length name \<noteq> 0"
      and o: "read_uint32 c (index_offset + 0x10) = Inr offset"
      and s: "read_uint32 c (index_offset + 0x14) = Inr size'"
      and p: "check_placement \<lparr>entry_name = os_path_join (snd (snd cursor')) name,
                   entry_offset = offset, entry_size = size', entry_type = ''MSK/MAI''\<rparr> (length c)"
      and r: "try_open_loop c count folders is_mask_arc (i + 1)
              (cursor', index_offset + 0x18,
               dir @ [\<lparr>entry_name = os_path_join (snd (snd cursor')) name,
                   entry_offset = offset, entry_size = size', entry_type = ''MSK/MAI''\<rparr>])
              = Inr (Some es)"
      using "1.prems"(2)
      by (subst (asm) try_open_loop.simps)
         (auto simp: ebind_def entry_type_for_def Let_def split: if_splits sum.splits)
    have t: "entry_type_for is_mask_arc c offset = Inr ''MSK/MAI''"
      using "1.prems"(2) by (simp add: entry_type_for_def)
    show ?thesis
      by (rule "1.hyps" [OF True a n(1) n(2) o s t refl _ r "1.prems"(2)])
         (use p "1.prems"(3) in auto)
  qed
qed

text \<open>Claim C7: when the basename of the archive's path equals \<open>mask.arc\<close> ignoring case,
  every entry of a successful resolution carries the override type \<open>MSK/MAI\<close>, and the
  type expression yields it at every offset, whatever bytes (if any) are stored there:
  \<open>detect_file_type\<close> is not evaluated.\<close>

theorem mask_arc_forces_type:
  assumes "lower (basename (path file)) = ''mask.arc''"
  shows "(\<forall>arc. try_open file = Inr (Some arc) \<longrightarrow>
            (\<forall>e \<in> set (arc_entries arc). entry_type e = ''MSK/MAI''))
       \<and> (\<forall>offset. entry_type_for (is_mask_arc (path file)) (content file) offset
              = Inr ''MSK/MAI'')"
proof (intro conjI allI impI)
  have m: "is_mask_arc (path file)" using assms by (simp add: is_mask_arc_def)
  show "entry_type_for (is_mask_arc (path file)) (content file) offset = Inr ''MSK/MAI''"
    for offset
    using m by (simp add: entry_type_for_def)
  fix arc
  assume "try_open file = Inr (Some arc)"
  then obtain count folders next_folder where
    "try_open_loop (content file) count folders (is_mask_arc (path file)) 0
       ((next_folder, 0, []), 0x10, []) = Inr (Some (arc_entries arc))"
    by (auto simp: try_open_def ebind_def Let_def split: if_splits sum.splits option.splits)
  from try_open_loop_mask_types [OF this m]
  show "\<forall>e \<in> set (arc_entries arc). entry_type e = ''MSK/MAI''" by simp
qed

theorem mask_arc_forces_type_witness:
  "lower (basename (path \<lparr>path = ''d/Mask.arc'', content = [77, 65, 73, 10, 43, 0, 0, 0,
      1, 0, 0, 0, 0, 1, 0, 0, 97, 0, 0, 0, 0, 0, 0, 0, 0, 0, 0, 0, 0, 0, 0, 0, 40, 0, 0, 0,
      3, 0, 0, 0, 0x43, 0x4D, 3]\<rparr>)) = ''mask.arc''
   \<and> try_open \<lparr>path = ''d/Mask.arc'', content = [77, 65, 73, 10, 43, 0, 0, 0,
      1, 0, 0, 0, 0, 1, 0, 0, 97, 0, 0, 0, 0, 0, 0, 0, 0, 0, 0, 0, 0, 0, 0, 0, 40, 0, 0, 0,
      3, 0, 0, 0, 0x43, 0x4D, 3]\<rparr>
     = Inr (Some \<lparr>arc_file = ''d/Mask.arc'',
          arc_entries = [\<lparr>entry_name = ''a'', entry_offset = 40, entry_size = 3,
                           entry_type = ''MSK/MAI''\<rparr>]\<rparr>)
   \<and> detect_file_type [77, 65, 73, 10, 43, 0, 0, 0,
      1, 0, 0, 0, 0, 1, 0, 0, 97, 0, 0, 0, 0, 0, 0, 0, 0, 0, 0, 0, 0, 0, 0, 0, 40, 0, 0, 0,
      3, 0, 0, 0, 0x43, 0x4D, 3] 40 = Inl StructError"
  using mask_arc_forces_type [of "\<lparr>path = ''d/Mask.arc'', content = [77, 65, 73, 10, 43, 0, 0, 0,
      1, 0, 0, 0, 0, 1, 0, 0, 97, 0, 0, 0, 0, 0, 0, 0, 0, 0, 0, 0, 0, 0, 0, 0, 40, 0, 0, 0,
      3, 0, 0, 0, 0x43, 0x4D, 3]\<rparr>"]
  by (simp add: arc_eval)

end
